theory Spec2Isabelle
  imports
    Main
    "HOL-Library.Word"
    "HOL-Library.Char_ord"
    "HOL-Library.List_Lexorder"
    "HOL-Library.Product_Lexorder"
begin

section \<open>The pessimistic transaction of utilities/transactions/transaction_impl.cc\<close>

text \<open>
  A shallow embedding of \<^verbatim>\<open>TransactionImpl\<close>. Every member function of the file is a
  HOL function that takes the state it reads and returns the state it leaves:
  the transaction object (\<open>TransactionImpl\<close>) and the world around it (\<open>World\<close>: the
  store behind \<^verbatim>\<open>db_\<close>, the lock table behind \<^verbatim>\<open>txn_db_impl_\<close>, the clock).

  The file calls into classes whose code is elsewhere in the repository
  (\<^verbatim>\<open>TransactionBaseImpl\<close>, \<^verbatim>\<open>TransactionDBImpl\<close>, \<^verbatim>\<open>DB\<close>, \<^verbatim>\<open>TransactionUtil\<close>).
  The store is a parameter (\<open>DBOps\<close>); the lock table and the base class's
  bookkeeping are modelled from the specification and marked so.

  \<^verbatim>\<open>assert(...)\<close> is a debug-build check (compiled out under \<^verbatim>\<open>NDEBUG\<close>); it
  states what the author expects to hold and has no effect on what a function
  returns. The model gives what the functions return; the asserted conditions
  are named where they occur.
\<close>

subsection \<open>Data\<close>

type_synonym u32 = "32 word"
type_synonym u64 = "64 word"

text \<open>\<^verbatim>\<open>int64_t\<close>: a 64-bit word read in two's complement (\<open>sint\<close>).\<close>
type_synonym i64 = "64 word"

type_synonym SequenceNumber = u64
type_synonym TransactionID = u64

text \<open>
  Modelled from the spec: \<^verbatim>\<open>kMaxSequenceNumber\<close> is declared in db/dbformat.h, which
  is not among the sources; the specification calls it the infinity sentinel.
  No theorem below depends on its value.
\<close>
definition kMaxSequenceNumber :: SequenceNumber where
  "kMaxSequenceNumber = 2 ^ 56 - 1"

text \<open>
  \<^verbatim>\<open>Status\<close>. The file itself builds \<^verbatim>\<open>Status::OK()\<close> (the default) and
  \<^verbatim>\<open>Status::Expired()\<close>; the other values come back from the lock table, the
  conflict check and the store, and carry the specification's names.
\<close>
datatype Status =
  OK | Expired | LockTimeout | LockConflict | Conflict | StoreWriteError | NotFound

definition ok :: "Status \<Rightarrow> bool" where
  "ok s = (s = OK)"

datatype ExecutionStatus = STARTED | COMMITTING | LOCKS_STOLEN

text \<open>
  A write batch, as \<^verbatim>\<open>WriteBatch::Iterate\<close> hands it to a handler: the staged
  operations in insertion order, each with its column family id and key.
\<close>
datatype WriteOp =
  PutCF u32 string string
| MergeCF u32 string string
| DeleteCF u32 string

type_synonym WriteBatch = "WriteOp list"

text \<open>
  \<^verbatim>\<open>TransactionKeyMap\<close>: column family id to (key to sequence number), two nested
  hash maps.
\<close>
type_synonym TransactionKeyMap = "u32 \<rightharpoonup> (string \<rightharpoonup> SequenceNumber)"

definition key_seq :: "TransactionKeyMap \<Rightarrow> u32 \<times> string \<Rightarrow> SequenceNumber option" where
  "key_seq m ck = (case m (fst ck) of None \<Rightarrow> None | Some km \<Rightarrow> km (snd ck))"

definition has_key :: "TransactionKeyMap \<Rightarrow> u32 \<times> string \<Rightarrow> bool" where
  "has_key m ck = (key_seq m ck \<noteq> None)"

text \<open>
  Modelled from the spec: a savepoint of \<^verbatim>\<open>TransactionBaseImpl\<close> (not among the
  sources): a marker into the pending batch and the ledger entries added since
  the marker.
\<close>
record SavePoint =
  batch_mark :: nat
  new_keys :: TransactionKeyMap

record TransactionOptions =
  set_snapshot :: bool
  lock_timeout :: i64
  expiration :: i64

text \<open>
  The transaction object (member names without the trailing underscore of the
  source): the members of \<^verbatim>\<open>TransactionImpl\<close> and those of its base
  class that this file reads or writes. \<open>snapshot\<close> holds the snapshot's sequence
  number, \<open>None\<close> for \<^verbatim>\<open>nullptr\<close>.
\<close>
record TransactionImpl =
  txn_id :: TransactionID
  start_time :: u64
  expiration_time :: u64
  txn_lock_timeout :: i64
  exec_status :: ExecutionStatus
  snapshot :: "SequenceNumber option"
  snapshot_needed :: bool
  tracked_keys :: TransactionKeyMap
  write_batch :: WriteBatch
  save_points :: "SavePoint list"

text \<open>
  The store behind \<^verbatim>\<open>db_\<close>, a parameter: what \<^verbatim>\<open>DB::Write\<close>,
  \<^verbatim>\<open>DB::GetLatestSequenceNumber\<close> and \<^verbatim>\<open>TransactionUtil::CheckKeyForConflicts\<close>
  answer on a store state of any type \<open>'db\<close>.
\<close>
record 'db DBOps =
  Write :: "'db \<Rightarrow> WriteBatch \<Rightarrow> Status \<times> 'db"
  GetLatestSequenceNumber :: "'db \<Rightarrow> SequenceNumber"
  CheckKeyForConflicts :: "'db \<Rightarrow> u32 \<Rightarrow> string \<Rightarrow> SequenceNumber \<Rightarrow> Status"

text \<open>Calls made on the store, recorded in the order they are made.\<close>
datatype DBCall =
  WriteCall WriteBatch
| ConflictCheckCall u32 string SequenceNumber

text \<open>
  The world around a transaction. \<open>now_micros\<close> is what
  \<^verbatim>\<open>db_->GetEnv()->NowMicros()\<close> returns; \<open>db_calls\<close> and \<open>acquire_calls\<close> record
  the calls made on the store and on the lock table's acquire primitive, oldest
  first (what a test double of either would count); \<open>lock_map\<close> is the lock
  table: the holder of each (column family, key).
\<close>
record 'db World =
  db :: 'db
  db_calls :: "DBCall list"
  now_micros :: u64
  lock_map :: "u32 \<times> string \<rightharpoonup> TransactionID"
  acquire_calls :: "(u32 \<times> string) list"
  expirable_txns :: "TransactionID set"
  txn_id_counter :: TransactionID

subsection \<open>The store and the clock\<close>

definition db_Write :: "'db DBOps \<Rightarrow> 'db World \<Rightarrow> WriteBatch \<Rightarrow> Status \<times> 'db World" where
  "db_Write D w batch =
     (let (s, db') = Write D (db w) batch
      in (s, w\<lparr>db := db', db_calls := db_calls w @ [WriteCall batch]\<rparr>))"

definition db_CheckKeyForConflicts ::
  "'db DBOps \<Rightarrow> 'db World \<Rightarrow> u32 \<Rightarrow> string \<Rightarrow> SequenceNumber \<Rightarrow> Status \<times> 'db World" where
  "db_CheckKeyForConflicts D w cf key seq =
     (CheckKeyForConflicts D (db w) cf key seq,
      w\<lparr>db_calls := db_calls w @ [ConflictCheckCall cf key seq]\<rparr>)"

subsection \<open>Expiry, the status flag and the commit write\<close>

text \<open>\<^verbatim>\<open>TransactionImpl::IsExpired\<close> (lines 77-86).\<close>
definition IsExpired :: "'db World \<Rightarrow> TransactionImpl \<Rightarrow> bool" where
  "IsExpired w t =
     (if 0 < expiration_time t
      then (if expiration_time t \<le> now_micros w then True else False)
      else False)"

text \<open>
  \<^verbatim>\<open>std::atomic_compare_exchange_strong(&obj, &expected, desired)\<close> on the status
  flag: one atomic step that returns whether the flag held \<open>expected\<close>, and
  the flag afterwards.
\<close>
definition atomic_compare_exchange_strong ::
  "ExecutionStatus \<Rightarrow> ExecutionStatus \<Rightarrow> ExecutionStatus \<Rightarrow> bool \<times> ExecutionStatus" where
  "atomic_compare_exchange_strong obj expected desired =
     (if obj = expected then (True, desired) else (False, obj))"

text \<open>
  \<^verbatim>\<open>TransactionImpl::DoCommit\<close> (lines 110-140). Line 132 asserts
  \<^verbatim>\<open>exec_status_ == LOCKS_STOLEN\<close> on the branch where the exchange failed.
  \<^verbatim>\<open>TEST_SYNC_POINT\<close> (line 127) is a hook for tests and does nothing else.
\<close>
definition DoCommit ::
  "'db DBOps \<Rightarrow> 'db World \<Rightarrow> TransactionImpl \<Rightarrow> WriteBatch
     \<Rightarrow> Status \<times> 'db World \<times> TransactionImpl" where
  "DoCommit D w t batch =
     (if 0 < expiration_time t then
        (if IsExpired w t then (Expired, w, t)
         else
           (let (can_commit, st) =
                  atomic_compare_exchange_strong (exec_status t) STARTED COMMITTING;
                t' = t\<lparr>exec_status := st\<rparr>
            in if can_commit
               then (let (s, w') = db_Write D w batch in (s, w', t'))
               else (Expired, w, t')))
      else (let (s, w') = db_Write D w batch in (s, w', t)))"

text \<open>
  \<^verbatim>\<open>TransactionImpl::TryStealingLocks\<close> (lines 336-341): the returned flag and the
  transaction afterwards. Line 337 asserts \<^verbatim>\<open>IsExpired()\<close>.
\<close>
definition TryStealingLocks :: "TransactionImpl \<Rightarrow> bool \<times> TransactionImpl" where
  "TryStealingLocks t =
     (let (stolen, st) =
            atomic_compare_exchange_strong (exec_status t) STARTED LOCKS_STOLEN
      in (stolen, t\<lparr>exec_status := st\<rparr>))"

subsection \<open>The lock table\<close>

text \<open>
  Modelled from the spec: the lock table behind \<^verbatim>\<open>txn_db_impl_\<close>
  (\<^verbatim>\<open>TransactionDBImpl::TryLock\<close> and \<^verbatim>\<open>UnLock\<close>, not among the sources). Section 3:
  a lock is exclusive per (column family id, key bytes) and held by at most one
  transaction id. Section 6: \<^verbatim>\<open>acquire(txn_id, cf, key, timeout)\<close> and
  \<^verbatim>\<open>release(txn_id, set of (cf, key))\<close>. Acquiring a free key takes it; acquiring
  a key the caller holds changes nothing (sections 4.4 and 8 call such a call
  redundant); acquiring a key another transaction holds fails with
  \<open>LockTimeout\<close> once the timeout has passed and leaves the table as it was
  (section 8). Release frees those of the given keys that the caller holds.
  Every acquire call is recorded in \<open>acquire_calls\<close>. The table's side of
  lock stealing (section 4.6: taking over the key of an expired holder whose
  \<^verbatim>\<open>TryStealingLocks\<close> returned true) is not part of this model: a key another
  transaction holds is not granted.
\<close>
definition txn_db_TryLock ::
  "'db World \<Rightarrow> TransactionImpl \<Rightarrow> u32 \<Rightarrow> string \<Rightarrow> Status \<times> 'db World" where
  "txn_db_TryLock w t cf key =
     (let w' = w\<lparr>acquire_calls := acquire_calls w @ [(cf, key)]\<rparr>
      in case lock_map w (cf, key) of
           None \<Rightarrow> (OK, w'\<lparr>lock_map := (lock_map w)((cf, key) \<mapsto> txn_id t)\<rparr>)
         | Some holder \<Rightarrow> if holder = txn_id t then (OK, w') else (LockTimeout, w'))"

text \<open>
  Modelled from the spec: \<^verbatim>\<open>TransactionDBImpl::UnLock(txn, const TransactionKeyMap*)\<close>
  (not among the sources), the release of a set of keys (section 6): each key
  of the map that the transaction holds becomes free.
\<close>
definition txn_db_UnLock ::
  "'db World \<Rightarrow> TransactionImpl \<Rightarrow> TransactionKeyMap \<Rightarrow> 'db World" where
  "txn_db_UnLock w t keys =
     w\<lparr>lock_map :=
         (\<lambda>ck. if has_key keys ck \<and> lock_map w ck = Some (txn_id t)
               then None else lock_map w ck)\<rparr>"

text \<open>
  Modelled from the spec: \<^verbatim>\<open>TransactionDBImpl::UnLock(txn, cfh_id, key)\<close> (not among
  the sources), the release of one key.
\<close>
definition txn_db_UnLock_key ::
  "'db World \<Rightarrow> TransactionImpl \<Rightarrow> u32 \<Rightarrow> string \<Rightarrow> 'db World" where
  "txn_db_UnLock_key w t cf key =
     w\<lparr>lock_map :=
         (\<lambda>ck. if ck = (cf, key) \<and> lock_map w ck = Some (txn_id t)
               then None else lock_map w ck)\<rparr>"

text \<open>
  Modelled from the spec: the registry of expirable transactions of
  \<^verbatim>\<open>TransactionDBImpl\<close> (not among the sources), kept by id;
  \<^verbatim>\<open>register_expirable(txn_id, txn_ref)\<close> (sections 4.6 and 6).
\<close>
definition InsertExpirableTransaction :: "'db World \<Rightarrow> TransactionID \<Rightarrow> 'db World" where
  "InsertExpirableTransaction w tid = w\<lparr>expirable_txns := insert tid (expirable_txns w)\<rparr>"

text \<open>Modelled from the spec: \<^verbatim>\<open>unregister_expirable(txn_id)\<close> (section 6).\<close>
definition RemoveExpirableTransaction :: "'db World \<Rightarrow> TransactionID \<Rightarrow> 'db World" where
  "RemoveExpirableTransaction w tid = w\<lparr>expirable_txns := expirable_txns w - {tid}\<rparr>"

subsection \<open>The base class: ledger, savepoints, snapshot\<close>

text \<open>Operations on the nested maps. \<^verbatim>\<open>m[cf][key] = seq\<close>:\<close>
definition put_key :: "TransactionKeyMap \<Rightarrow> u32 \<Rightarrow> string \<Rightarrow> SequenceNumber \<Rightarrow> TransactionKeyMap" where
  "put_key m cf key seq =
     m(cf \<mapsto> (case m cf of None \<Rightarrow> Map.empty | Some km \<Rightarrow> km)(key \<mapsto> seq))"

text \<open>\<^verbatim>\<open>m[cf].insert({key, seq})\<close>: an entry already there is kept.\<close>
definition insert_key :: "TransactionKeyMap \<Rightarrow> u32 \<Rightarrow> string \<Rightarrow> SequenceNumber \<Rightarrow> TransactionKeyMap" where
  "insert_key m cf key seq = (if has_key m (cf, key) then m else put_key m cf key seq)"

text \<open>Erasing from \<open>m\<close> every key of \<open>gone\<close>.\<close>
definition remove_keys :: "TransactionKeyMap \<Rightarrow> TransactionKeyMap \<Rightarrow> TransactionKeyMap" where
  "remove_keys m gone =
     (\<lambda>cf. case m cf of
              None \<Rightarrow> None
            | Some km \<Rightarrow> Some (\<lambda>key. if has_key gone (cf, key) then None else km key))"

text \<open>
  Modelled from the spec: the tracked-key ledger of \<^verbatim>\<open>TransactionBaseImpl\<close> (not
  among the sources), section 4.1. \<^verbatim>\<open>record(cf, key, seq)\<close> inserts or overwrites
  the entry with \<open>seq\<close>; an entry that is new is also noted in the most recent
  savepoint, so that \<^verbatim>\<open>entries_since(savepoint)\<close> can list it.
\<close>
definition TrackKey :: "TransactionImpl \<Rightarrow> u32 \<Rightarrow> string \<Rightarrow> SequenceNumber \<Rightarrow> TransactionImpl" where
  "TrackKey t cf key seq =
     (let t' = t\<lparr>tracked_keys := put_key (tracked_keys t) cf key seq\<rparr>
      in if has_key (tracked_keys t) (cf, key) then t'
         else (case save_points t of
                 [] \<Rightarrow> t'
               | sp # sps \<Rightarrow>
                   t'\<lparr>save_points := sp\<lparr>new_keys := put_key (new_keys sp) cf key seq\<rparr> # sps\<rparr>))"

text \<open>
  Modelled from the spec: \<^verbatim>\<open>TransactionBaseImpl::GetTrackedKeys\<close> (not among the
  sources) returns the ledger.
\<close>
definition GetTrackedKeys :: "TransactionImpl \<Rightarrow> TransactionKeyMap" where
  "GetTrackedKeys t = tracked_keys t"

text \<open>
  Modelled from the spec: \<^verbatim>\<open>TransactionBaseImpl::GetTrackedKeysSinceSavePoint\<close> (not
  among the sources), \<^verbatim>\<open>entries_since(savepoint)\<close> of section 4.1; \<open>None\<close> is the
  null pointer the source tests for at line 147, returned when no savepoint is
  set.
\<close>
definition GetTrackedKeysSinceSavePoint :: "TransactionImpl \<Rightarrow> TransactionKeyMap option" where
  "GetTrackedKeysSinceSavePoint t =
     (case save_points t of [] \<Rightarrow> None | sp # sps \<Rightarrow> Some (new_keys sp))"

text \<open>
  Modelled from the spec: \<^verbatim>\<open>TransactionBaseImpl::SetSavePoint\<close> (not among the
  sources): taking a savepoint marks the end of the pending batch and starts an
  empty list of new ledger entries (section 3: a stack of savepoints marking
  batch and ledger boundaries).
\<close>
definition SetSavePoint :: "TransactionImpl \<Rightarrow> TransactionImpl" where
  "SetSavePoint t =
     t\<lparr>save_points :=
         \<lparr>batch_mark = length (write_batch t), new_keys = Map.empty\<rparr> # save_points t\<rparr>"

text \<open>
  Modelled from the spec: \<^verbatim>\<open>TransactionBaseImpl::RollbackToSavePoint\<close> (not among
  the sources), section 4.5: truncates the pending batch and the ledger back to
  the most recent marker and pops that savepoint. The specification does not
  say what happens without a savepoint; here nothing changes and the status is
  \<open>NotFound\<close>.
\<close>
definition base_RollbackToSavePoint :: "TransactionImpl \<Rightarrow> Status \<times> TransactionImpl" where
  "base_RollbackToSavePoint t =
     (case save_points t of
        [] \<Rightarrow> (NotFound, t)
      | sp # sps \<Rightarrow>
          (OK, t\<lparr>tracked_keys := remove_keys (tracked_keys t) (new_keys sp),
                 write_batch := take (batch_mark sp) (write_batch t),
                 save_points := sps\<rparr>))"

text \<open>
  Modelled from the spec: \<^verbatim>\<open>TransactionBaseImpl::Clear\<close> (not among the sources)
  clears the transaction's state: savepoints, pending batch and ledger (section
  4.5).
\<close>
definition base_Clear :: "TransactionImpl \<Rightarrow> TransactionImpl" where
  "base_Clear t = t\<lparr>save_points := [], write_batch := [], tracked_keys := Map.empty\<rparr>"

text \<open>
  Modelled from the spec: \<^verbatim>\<open>TransactionBaseImpl::SetSnapshot\<close> (not among the
  sources). A snapshot is the store as of a sequence number (glossary); taking
  one now gives the store's latest sequence number.
\<close>
definition SetSnapshot :: "'db DBOps \<Rightarrow> 'db World \<Rightarrow> TransactionImpl \<Rightarrow> TransactionImpl" where
  "SetSnapshot D w t =
     t\<lparr>snapshot := Some (GetLatestSequenceNumber D (db w)), snapshot_needed := False\<rparr>"

text \<open>
  Modelled from the spec: \<^verbatim>\<open>TransactionBaseImpl::SetSnapshotIfNeeded\<close> (not among
  the sources; the specification does not describe it): it takes a snapshot
  when one was asked for and is still due, and does nothing otherwise. The
  statements about \<^verbatim>\<open>TryLock\<close> below speak of the snapshot after this call.
\<close>
definition SetSnapshotIfNeeded :: "'db DBOps \<Rightarrow> 'db World \<Rightarrow> TransactionImpl \<Rightarrow> TransactionImpl" where
  "SetSnapshotIfNeeded D w t = (if snapshot_needed t then SetSnapshot D w t else t)"

subsection \<open>Construction and destruction\<close>

text \<open>
  \<^verbatim>\<open>TransactionImpl::GenTxnID\<close> (lines 33-35): \<^verbatim>\<open>fetch_add(1)\<close> on the shared
  counter, which starts at 1 (line 31).
\<close>
definition GenTxnID :: "'db World \<Rightarrow> TransactionID \<times> 'db World" where
  "GenTxnID w = (txn_id_counter w, w\<lparr>txn_id_counter := txn_id_counter w + 1\<rparr>)"

text \<open>
  The constructor (lines 37-63). \<open>default_timeout\<close> is
  \<^verbatim>\<open>GetTxnDBOptions().transaction_lock_timeout\<close>. The base class's constructor
  reads the clock into \<^verbatim>\<open>start_time_\<close> (section 3: the wall-clock timestamp at
  construction). \<^verbatim>\<open>expiration\<close> and \<^verbatim>\<open>lock_timeout\<close> are signed 64-bit; the sum at
  line 44 is taken in \<^verbatim>\<open>uint64_t\<close> and wraps. The products with 1000 are signed
  and overflow only beyond \<open>2^63 / 1000\<close>, where C++ leaves them undefined;
  the model takes their two's-complement value. Line 49 asserts that the
  database is a \<^verbatim>\<open>TransactionDBImpl\<close>. The ledger, the batch and the savepoints
  start empty.
\<close>
definition new_TransactionImpl ::
  "'db DBOps \<Rightarrow> 'db World \<Rightarrow> i64 \<Rightarrow> TransactionOptions \<Rightarrow> 'db World \<times> TransactionImpl" where
  "new_TransactionImpl D w default_timeout opts =
     (let (tid, w1) = GenTxnID w;
          t = \<lparr>txn_id = tid,
               start_time = now_micros w,
               expiration_time =
                 (if 0 \<le> sint (expiration opts)
                  then now_micros w + expiration opts * 1000 else 0),
               txn_lock_timeout =
                 (if sint (lock_timeout opts * 1000) < 0
                  then default_timeout * 1000 else lock_timeout opts * 1000),
               exec_status = STARTED,
               snapshot = None,
               snapshot_needed = False,
               tracked_keys = Map.empty,
               write_batch = [],
               save_points = []\<rparr>;
          t' = (if set_snapshot opts then SetSnapshot D w1 t else t);
          w2 = (if 0 < expiration_time t' then InsertExpirableTransaction w1 (txn_id t') else w1)
      in (w2, t'))"

text \<open>The destructor (lines 65-70).\<close>
definition delete_TransactionImpl :: "'db World \<Rightarrow> TransactionImpl \<Rightarrow> 'db World" where
  "delete_TransactionImpl w t =
     (let w1 = txn_db_UnLock w t (GetTrackedKeys t)
      in if 0 < expiration_time t then RemoveExpirableTransaction w1 (txn_id t) else w1)"

subsection \<open>Commit and rollback\<close>

text \<open>\<^verbatim>\<open>TransactionImpl::Clear\<close> (lines 72-75).\<close>
definition Clear :: "'db World \<Rightarrow> TransactionImpl \<Rightarrow> 'db World \<times> TransactionImpl" where
  "Clear w t = (txn_db_UnLock w t (GetTrackedKeys t), base_Clear t)"

text \<open>\<^verbatim>\<open>TransactionImpl::Commit\<close> (lines 102-108).\<close>
definition Commit ::
  "'db DBOps \<Rightarrow> 'db World \<Rightarrow> TransactionImpl \<Rightarrow> Status \<times> 'db World \<times> TransactionImpl" where
  "Commit D w t =
     (let (s, w1, t1) = DoCommit D w t (write_batch t);
          (w2, t2) = Clear w1 t1
      in (s, w2, t2))"

text \<open>\<^verbatim>\<open>TransactionImpl::Rollback\<close> (line 142).\<close>
definition Rollback :: "'db World \<Rightarrow> TransactionImpl \<Rightarrow> 'db World \<times> TransactionImpl" where
  "Rollback w t = Clear w t"

text \<open>\<^verbatim>\<open>TransactionImpl::RollbackToSavePoint\<close> (lines 144-152).\<close>
definition RollbackToSavePoint ::
  "'db World \<Rightarrow> TransactionImpl \<Rightarrow> Status \<times> 'db World \<times> TransactionImpl" where
  "RollbackToSavePoint w t =
     (let w' = (case GetTrackedKeysSinceSavePoint t of
                  Some keys \<Rightarrow> txn_db_UnLock w t keys
                | None \<Rightarrow> w);
          (s, t') = base_RollbackToSavePoint t
      in (s, w', t'))"

subsection \<open>Locking the keys of a batch\<close>

text \<open>
  \<^verbatim>\<open>std::set<std::string>\<close> as the list of its elements in iteration order
  (ascending, no repetition); \<^verbatim>\<open>std::map<uint32_t, std::set<std::string>>\<close> as
  the list of its entries in iteration order. \<^verbatim>\<open>std::string\<close> compares bytes as
  unsigned values, then lengths: the lexicographic order of \<open>string\<close>.
\<close>
type_synonym KeySet = "string list"
type_synonym KeySetMap = "(u32 \<times> KeySet) list"

text \<open>\<^verbatim>\<open>std::set::insert\<close>.\<close>
fun set_insert :: "string \<Rightarrow> KeySet \<Rightarrow> KeySet" where
  "set_insert x [] = [x]"
| "set_insert x (y # ys) =
     (if x < y then x # y # ys
      else if x = y then y # ys
      else y # set_insert x ys)"

text \<open>
  \<^verbatim>\<open>keys_[cf]\<close> followed by a change \<open>f\<close> of the set found there: \<^verbatim>\<open>operator[]\<close>
  makes an entry with the empty set when the map has none for \<open>cf\<close>.
\<close>
fun at_cf :: "u32 \<Rightarrow> (KeySet \<Rightarrow> KeySet) \<Rightarrow> KeySetMap \<Rightarrow> KeySetMap" where
  "at_cf cf f [] = [(cf, f [])]"
| "at_cf cf f ((c, ks) # m) =
     (if cf < c then (cf, f []) # (c, ks) # m
      else if cf = c then (c, f ks) # m
      else (c, ks) # at_cf cf f m)"

text \<open>\<^verbatim>\<open>Handler::RecordKey\<close> (lines 168-176).\<close>
definition RecordKey :: "KeySetMap \<Rightarrow> u32 \<Rightarrow> string \<Rightarrow> KeySetMap" where
  "RecordKey keys cf key =
     at_cf cf (\<lambda>ks. if key \<in> set ks then ks else set_insert key ks) keys"

text \<open>
  \<^verbatim>\<open>Handler::PutCF\<close>, \<^verbatim>\<open>MergeCF\<close>, \<^verbatim>\<open>DeleteCF\<close> (lines 178-192): each records the key
  and returns OK, so the iteration visits every operation.
\<close>
fun Handler_visit :: "KeySetMap \<Rightarrow> WriteOp \<Rightarrow> KeySetMap" where
  "Handler_visit keys (PutCF cf key v) = RecordKey keys cf key"
| "Handler_visit keys (MergeCF cf key v) = RecordKey keys cf key"
| "Handler_visit keys (DeleteCF cf key) = RecordKey keys cf key"

text \<open>\<^verbatim>\<open>batch->Iterate(&handler)\<close> on a fresh handler (lines 196-197).\<close>
definition Iterate :: "WriteBatch \<Rightarrow> KeySetMap" where
  "Iterate batch = foldl Handler_visit [] batch"

text \<open>The inner loop (lines 206-214) over the keys of one column family.\<close>
fun lock_keys ::
  "'db World \<Rightarrow> TransactionImpl \<Rightarrow> u32 \<Rightarrow> KeySet \<Rightarrow> TransactionKeyMap
     \<Rightarrow> Status \<times> 'db World \<times> TransactionKeyMap" where
  "lock_keys w t cf [] keys_to_unlock = (OK, w, keys_to_unlock)"
| "lock_keys w t cf (key # keys) keys_to_unlock =
     (let (s, w') = txn_db_TryLock w t cf key
      in if \<not> ok s then (s, w', keys_to_unlock)
         else lock_keys w' t cf keys (insert_key keys_to_unlock cf key kMaxSequenceNumber))"

text \<open>The outer loop (lines 202-219) over the column families.\<close>
fun lock_cfs ::
  "'db World \<Rightarrow> TransactionImpl \<Rightarrow> KeySetMap \<Rightarrow> TransactionKeyMap
     \<Rightarrow> Status \<times> 'db World \<times> TransactionKeyMap" where
  "lock_cfs w t [] keys_to_unlock = (OK, w, keys_to_unlock)"
| "lock_cfs w t ((cf, keys) # m) keys_to_unlock =
     (let (s, w', keys_to_unlock') = lock_keys w t cf keys keys_to_unlock
      in if \<not> ok s then (s, w', keys_to_unlock')
         else lock_cfs w' t m keys_to_unlock')"

text \<open>
  \<^verbatim>\<open>TransactionImpl::LockBatch\<close> (lines 156-226). \<open>keys_to_unlock\<close> is the map the
  caller passes in; the function returns it as it leaves it.
\<close>
definition LockBatch ::
  "'db World \<Rightarrow> TransactionImpl \<Rightarrow> WriteBatch \<Rightarrow> TransactionKeyMap
     \<Rightarrow> Status \<times> 'db World \<times> TransactionKeyMap" where
  "LockBatch w t batch keys_to_unlock =
     (let (s, w', keys_to_unlock') = lock_cfs w t (Iterate batch) keys_to_unlock
      in if \<not> ok s then (s, txn_db_UnLock w' t keys_to_unlock', keys_to_unlock')
         else (s, w', keys_to_unlock'))"

text \<open>\<^verbatim>\<open>TransactionImpl::CommitBatch\<close> (lines 88-100).\<close>
definition CommitBatch ::
  "'db DBOps \<Rightarrow> 'db World \<Rightarrow> TransactionImpl \<Rightarrow> WriteBatch
     \<Rightarrow> Status \<times> 'db World \<times> TransactionImpl" where
  "CommitBatch D w t batch =
     (let (s, w1, keys_to_unlock) = LockBatch w t batch Map.empty
      in if ok s
         then (let (s', w2, t') = DoCommit D w1 t batch
               in (s', txn_db_UnLock w2 t' keys_to_unlock, t'))
         else (s, w1, t))"

subsection \<open>Locking one key\<close>

text \<open>
  \<^verbatim>\<open>TransactionImpl::ValidateSnapshot\<close> (lines 309-334). \<open>seq\<close> is the sequence
  number of \<^verbatim>\<open>snapshot_\<close>, which the caller has found set (line 271; asserted at
  line 313). \<open>new_seqno\<close> is the value behind the out-parameter on entry; the
  function returns the value behind it on exit.
\<close>
definition ValidateSnapshot ::
  "'db DBOps \<Rightarrow> 'db World \<Rightarrow> SequenceNumber \<Rightarrow> u32 \<Rightarrow> string \<Rightarrow> SequenceNumber
     \<Rightarrow> SequenceNumber \<Rightarrow> Status \<times> SequenceNumber \<times> 'db World" where
  "ValidateSnapshot D w seq cf key prev_seqno new_seqno =
     (if prev_seqno \<le> seq then (OK, new_seqno, w)
      else (let (s, w') = db_CheckKeyForConflicts D w cf key seq in (s, seq, w')))"

text \<open>
  \<^verbatim>\<open>TransactionImpl::TryLock\<close> (lines 233-305). \<open>cf\<close> is
  \<^verbatim>\<open>GetColumnFamilyID(column_family)\<close>. The test at line 271,
  \<^verbatim>\<open>untracked || snapshot_ == nullptr\<close>, is the \<open>None\<close> case below.
\<close>
definition TryLock ::
  "'db DBOps \<Rightarrow> 'db World \<Rightarrow> TransactionImpl \<Rightarrow> u32 \<Rightarrow> string \<Rightarrow> bool
     \<Rightarrow> Status \<times> 'db World \<times> TransactionImpl" where
  "TryLock D w t cf key untracked =
     (let (previously_locked, current_seqno) =
            (case GetTrackedKeys t cf of
               None \<Rightarrow> (False, kMaxSequenceNumber)
             | Some km \<Rightarrow>
                 (case km key of
                    None \<Rightarrow> (False, kMaxSequenceNumber)
                  | Some seq \<Rightarrow> (True, seq)));
          (s, w1) = (if \<not> previously_locked then txn_db_TryLock w t cf key else (OK, w));
          t1 = SetSnapshotIfNeeded D w1 t;
          (s', new_seqno, w2) =
            (case (if untracked then None else snapshot t1) of
               None \<Rightarrow>
                 (s,
                  (if current_seqno = kMaxSequenceNumber
                   then GetLatestSequenceNumber D (db w1) else current_seqno),
                  w1)
             | Some seq \<Rightarrow>
                 (if ok s
                  then (let (sv, nv, wv) =
                              ValidateSnapshot D w1 seq cf key current_seqno kMaxSequenceNumber
                        in if \<not> ok sv
                           then (sv, nv,
                                 (if \<not> previously_locked
                                  then txn_db_UnLock_key wv t1 cf key else wv))
                           else (sv, nv, wv))
                  else (s, kMaxSequenceNumber, w1)))
      in if ok s' then (s', w2, TrackKey t1 cf key new_seqno) else (s', w2, t1))"

subsection \<open>The lock plan of a batch\<close>

text \<open>
  The (column family, key) pairs in the order in which the two loops of
  \<^verbatim>\<open>LockBatch\<close> (lines 202-219) visit the handler's map.
\<close>
definition lock_plan :: "KeySetMap \<Rightarrow> (u32 \<times> string) list" where
  "lock_plan m = concat (map (\<lambda>(cf, ks). map (Pair cf) ks) m)"

fun op_key :: "WriteOp \<Rightarrow> u32 \<times> string" where
  "op_key (PutCF cf key v) = (cf, key)"
| "op_key (MergeCF cf key v) = (cf, key)"
| "op_key (DeleteCF cf key) = (cf, key)"

text \<open>The set of (column family, key) pairs a batch touches.\<close>
definition batch_keys :: "WriteBatch \<Rightarrow> (u32 \<times> string) set" where
  "batch_keys batch = set (map op_key batch)"

text \<open>
  Column families in ascending id order, keys of one column family in
  ascending byte-lexicographic order.
\<close>
definition plan_less :: "u32 \<times> string \<Rightarrow> u32 \<times> string \<Rightarrow> bool" where
  "plan_less a b = (fst a < fst b \<or> (fst a = fst b \<and> snd a < snd b))"

text \<open>
  A key the lock table grants to transaction \<open>t\<close>: free, or held by \<open>t\<close>.
\<close>
definition free_for :: "'db World \<Rightarrow> TransactionImpl \<Rightarrow> u32 \<times> string \<Rightarrow> bool" where
  "free_for w t ck = (lock_map w ck = None \<or> lock_map w ck = Some (txn_id t))"

text \<open>
  The world after the lock table has been asked for the keys \<open>asked\<close> and has
  granted the keys \<open>got\<close>; the map of keys to unlock after \<open>got\<close> was noted
  in it (line 213).
\<close>
definition granted ::
  "'db World \<Rightarrow> TransactionImpl \<Rightarrow> (u32 \<times> string) list \<Rightarrow> (u32 \<times> string) list \<Rightarrow> 'db World" where
  "granted w t got asked =
     w\<lparr>acquire_calls := acquire_calls w @ asked,
       lock_map := (\<lambda>ck. if ck \<in> set got then Some (txn_id t) else lock_map w ck)\<rparr>"

definition noted :: "TransactionKeyMap \<Rightarrow> (u32 \<times> string) list \<Rightarrow> TransactionKeyMap" where
  "noted m got = foldl (\<lambda>m ck. insert_key m (fst ck) (snd ck) kMaxSequenceNumber) m got"

text \<open>
  What the handler's map is at every point of the iteration: column family ids
  strictly ascending, and the keys of each strictly ascending.
\<close>
definition keys_inv :: "KeySetMap \<Rightarrow> bool" where
  "keys_inv m = (sorted_wrt (<) (map fst m) \<and> (\<forall>ks \<in> snd ` set m. sorted_wrt (<) ks))"

subsection \<open>Sequences of calls\<close>

text \<open>
  What can happen to one transaction object, one call at a time: the member
  functions of the file, a savepoint taken, a write staged, and a step of the
  environment (the clock moves, other transactions take or release locks, the
  store advances). \<^verbatim>\<open>TryStealingLocks\<close> is called by another transaction's
  thread.

  Modelled from the spec: staging a write (\<open>CallStage\<close>; the base class's
  \<^verbatim>\<open>Put\<close>, \<^verbatim>\<open>Merge\<close> and \<^verbatim>\<open>Delete\<close>, not among the sources) appends the operation
  to the pending batch, the ordered sequence of staged writes of section 3.
\<close>
datatype 'db Call =
  CallTryLock u32 string bool
| CallStage WriteOp
| CallSetSavePoint
| CallRollbackToSavePoint
| CallRollback
| CallCommit
| CallCommitBatch WriteBatch
| CallTryStealingLocks
| CallEnv "'db World \<Rightarrow> 'db World"

fun call ::
  "'db DBOps \<Rightarrow> 'db Call \<Rightarrow> 'db World \<times> TransactionImpl \<Rightarrow> 'db World \<times> TransactionImpl" where
  "call D (CallTryLock cf key untracked) (w, t) = snd (TryLock D w t cf key untracked)"
| "call D (CallStage wop) (w, t) = (w, t\<lparr>write_batch := write_batch t @ [wop]\<rparr>)"
| "call D CallSetSavePoint (w, t) = (w, SetSavePoint t)"
| "call D CallRollbackToSavePoint (w, t) = snd (RollbackToSavePoint w t)"
| "call D CallRollback (w, t) = Rollback w t"
| "call D CallCommit (w, t) = snd (Commit D w t)"
| "call D (CallCommitBatch batch) (w, t) = snd (CommitBatch D w t batch)"
| "call D CallTryStealingLocks (w, t) = (w, snd (TryStealingLocks t))"
| "call D (CallEnv f) (w, t) = (f w, t)"

fun run ::
  "'db DBOps \<Rightarrow> 'db Call list \<Rightarrow> 'db World \<times> TransactionImpl \<Rightarrow> 'db World \<times> TransactionImpl" where
  "run D [] x = x"
| "run D (c # cs) x = run D cs (call D c x)"

text \<open>The status flag before the first call and after each call of a sequence.\<close>
fun status_trace ::
  "'db DBOps \<Rightarrow> 'db Call list \<Rightarrow> 'db World \<times> TransactionImpl \<Rightarrow> ExecutionStatus list" where
  "status_trace D [] x = [exec_status (snd x)]"
| "status_trace D (c # cs) x = exec_status (snd x) # status_trace D cs (call D c x)"

text \<open>How often a list changes value from one element to the next.\<close>
fun changes :: "'a list \<Rightarrow> nat" where
  "changes (x # y # zs) = (if x = y then 0 else 1) + changes (y # zs)"
| "changes zs = 0"

text \<open>The calls that lock a key or stage a write.\<close>
fun locks_or_stages :: "'db Call \<Rightarrow> bool" where
  "locks_or_stages (CallTryLock cf key untracked) = True"
| "locks_or_stages (CallStage wop) = True"
| "locks_or_stages c = False"

text \<open>
  How a state \<open>(w, t)\<close> relates to the state \<open>(w0, t0)\<close> in which the most
  recent savepoint was taken, as long as only keys were locked and writes
  staged since: the savepoint on top of the stack lists exactly the ledger
  entries added since; the entries from before are still there and their locks
  are as they were; the batch has only grown; and a key the transaction did not
  hold then is as it was, or was free and is now held and in the ledger.
\<close>
definition since_savepoint ::
  "'db World \<Rightarrow> TransactionImpl \<Rightarrow> 'db World \<times> TransactionImpl \<Rightarrow> bool" where
  "since_savepoint w0 t0 x =
     (txn_id (snd x) = txn_id t0
      \<and> (\<exists>nk. save_points (snd x) =
                 \<lparr>batch_mark = length (write_batch t0), new_keys = nk\<rparr> # save_points t0
               \<and> (\<forall>ck. has_key nk ck =
                         (has_key (tracked_keys (snd x)) ck \<and> \<not> has_key (tracked_keys t0) ck)))
      \<and> (\<forall>ck. has_key (tracked_keys t0) ck \<longrightarrow>
                 has_key (tracked_keys (snd x)) ck \<and> lock_map (fst x) ck = lock_map w0 ck)
      \<and> take (length (write_batch t0)) (write_batch (snd x)) = write_batch t0
      \<and> (\<forall>ck. lock_map w0 ck \<noteq> Some (txn_id t0) \<longrightarrow>
                 lock_map (fst x) ck = lock_map w0 ck
                 \<or> (lock_map w0 ck = None \<and> lock_map (fst x) ck = Some (txn_id t0)
                     \<and> has_key (tracked_keys (snd x)) ck)))"

subsection \<open>Example states\<close>

text \<open>
  A store whose state is the list of batches written so far: a write succeeds
  unless the batch is empty, the latest sequence number is 20, and the key
  \<open>''hot''\<close> was last written at sequence number 15.
\<close>
definition ex_store :: "WriteBatch list DBOps" where
  "ex_store =
     \<lparr>Write = (\<lambda>d b. if b = [] then (StoreWriteError, d) else (OK, d @ [b])),
      GetLatestSequenceNumber = (\<lambda>d. 20),
      CheckKeyForConflicts = (\<lambda>d cf key seq. if key = ''hot'' \<and> seq < 15 then Conflict else OK)\<rparr>"

text \<open>
  A world at clock 50 in which transaction 7 holds \<open>(0, ''k1'')\<close> and
  transaction 9 holds \<open>(0, ''z'')\<close>.
\<close>
definition ex_world :: "WriteBatch list World" where
  "ex_world =
     \<lparr>db = [], db_calls = [], now_micros = 50,
      lock_map = [(0, ''k1'') \<mapsto> 7, (0, ''z'') \<mapsto> 9],
      acquire_calls = [], expirable_txns = {}, txn_id_counter = 10\<rparr>"

text \<open>
  Transaction 7: never expires, no snapshot, \<open>(0, ''k1'')\<close> in its ledger at
  sequence number 5, one staged write.
\<close>
definition ex_txn :: TransactionImpl where
  "ex_txn =
     \<lparr>txn_id = 7, start_time = 40, expiration_time = 0, txn_lock_timeout = 1000,
      exec_status = STARTED, snapshot = None, snapshot_needed = False,
      tracked_keys = [0 \<mapsto> [''k1'' \<mapsto> 5]],
      write_batch = [PutCF 0 ''k1'' ''v''], save_points = []\<rparr>"

text \<open>
  A batch that stages two operations on \<open>(1, ''b'')\<close> and touches four keys in
  two column families.
\<close>
definition ex_batch :: WriteBatch where
  "ex_batch =
     [PutCF 1 ''b'' ''v'', DeleteCF 0 ''z'', MergeCF 1 ''a'' ''v'', PutCF 1 ''b'' ''w'',
      PutCF 0 ''ab'' ''u'']"

text \<open>Options with an expiration of exactly zero and no lock timeout given.\<close>
definition ex_opts :: TransactionOptions where
  "ex_opts = \<lparr>set_snapshot = False, lock_timeout = - 1, expiration = 0\<rparr>"

text \<open>
  After a savepoint: lock \<open>(0, ''k2'')\<close> and stage a write to it, then the same
  for \<open>(0, ''k3'')\<close>.
\<close>
definition ex_calls :: "WriteBatch list Call list" where
  "ex_calls =
     [CallTryLock 0 ''k2'' False, CallStage (PutCF 0 ''k2'' ''v''),
      CallTryLock 0 ''k3'' False, CallStage (PutCF 0 ''k3'' ''v'')]"

section \<open>Properties\<close>

subsection \<open>Auxiliary facts\<close>

lemma cas_STARTED:
  "atomic_compare_exchange_strong st STARTED new =
     (st = STARTED, if st = STARTED then new else st)"
  by (simp add: atomic_compare_exchange_strong_def)

text \<open>
  The assertion at line 132 (the flag is \<open>LOCKS_STOLEN\<close> where the exchange
  of \<^verbatim>\<open>DoCommit\<close> failed) holds unless the flag was already \<open>COMMITTING\<close>, that
  is, unless a commit had gone through its exchange before.
\<close>
lemma DoCommit_assertion:
  "\<not> fst (atomic_compare_exchange_strong (exec_status t) STARTED COMMITTING) \<Longrightarrow>
     exec_status t \<noteq> COMMITTING \<Longrightarrow>
     snd (atomic_compare_exchange_strong (exec_status t) STARTED COMMITTING) = LOCKS_STOLEN"
  by (cases "exec_status t") (simp_all add: cas_STARTED)

lemma exec_status_TrackKey [simp]: "exec_status (TrackKey t cf key seq) = exec_status t"
  by (simp add: TrackKey_def Let_def split: list.splits)

lemma exec_status_SetSnapshotIfNeeded [simp]:
  "exec_status (SetSnapshotIfNeeded D w t) = exec_status t"
  by (simp add: SetSnapshotIfNeeded_def SetSnapshot_def)

lemma exec_status_TryLock:
  "exec_status (snd (snd (TryLock D w t cf key untracked))) = exec_status t"
  by (simp add: TryLock_def Let_def split: prod.splits option.splits)

lemma exec_status_DoCommit:
  "exec_status (snd (snd (DoCommit D w t batch))) =
     (if 0 < expiration_time t \<and> \<not> IsExpired w t \<and> exec_status t = STARTED
      then COMMITTING else exec_status t)"
  by (simp add: DoCommit_def cas_STARTED split: prod.splits)

lemma exec_status_Clear [simp]: "exec_status (snd (Clear w t)) = exec_status t"
  by (simp add: Clear_def base_Clear_def)

lemma exec_status_Commit:
  "exec_status (snd (snd (Commit D w t))) =
     (if 0 < expiration_time t \<and> \<not> IsExpired w t \<and> exec_status t = STARTED
      then COMMITTING else exec_status t)"
  using exec_status_DoCommit [of D w t "write_batch t"]
  by (auto simp: Commit_def split: prod.splits)

lemma IsExpired_cong: "now_micros w' = now_micros w \<Longrightarrow> IsExpired w' t = IsExpired w t"
  by (simp add: IsExpired_def)

lemma exec_status_CommitBatch:
  "exec_status (snd (snd (CommitBatch D w t batch))) = exec_status t \<or>
   exec_status t = STARTED \<and> exec_status (snd (snd (CommitBatch D w t batch))) = COMMITTING"
proof (cases "LockBatch w t batch Map.empty")
  case (fields s w1 ktu)
  then show ?thesis
    using exec_status_DoCommit [of D w1 t batch]
    by (auto simp: CommitBatch_def split: prod.splits if_splits)
qed

lemma exec_status_RollbackToSavePoint:
  "exec_status (snd (snd (RollbackToSavePoint w t))) = exec_status t"
  by (simp add: RollbackToSavePoint_def base_RollbackToSavePoint_def split: list.splits prod.splits)

lemma exec_status_TryStealingLocks:
  "TryStealingLocks t =
     (exec_status t = STARTED,
      if exec_status t = STARTED then t\<lparr>exec_status := LOCKS_STOLEN\<rparr> else t)"
  by (simp add: TryStealingLocks_def cas_STARTED)

lemma call_status:
  "exec_status (snd (call D c (w, t))) = exec_status t \<or>
   exec_status t = STARTED \<and>
     ((c = CallCommit \<or> (\<exists>b. c = CallCommitBatch b)) \<and>
        exec_status (snd (call D c (w, t))) = COMMITTING
      \<or> c = CallTryStealingLocks \<and> exec_status (snd (call D c (w, t))) = LOCKS_STOLEN)"
proof (cases c)
  case (CallTryLock cf key u)
  then show ?thesis by (simp add: exec_status_TryLock)
next
  case CallCommit
  then show ?thesis by (simp add: exec_status_Commit)
next
  case (CallCommitBatch b)
  then show ?thesis using exec_status_CommitBatch [of D w t b] by auto
next
  case CallTryStealingLocks
  then show ?thesis by (simp add: exec_status_TryStealingLocks)
qed (simp_all add: SetSavePoint_def exec_status_RollbackToSavePoint Rollback_def)

lemma status_trace_frozen:
  "exec_status (snd x) \<noteq> STARTED \<Longrightarrow> changes (status_trace D cs x) = 0"
proof (induction cs arbitrary: x)
  case Nil
  then show ?case by simp
next
  case (Cons c cs)
  obtain w t where x: "x = (w, t)" by (cases x)
  from Cons.prems x call_status [of D c w t]
  have same: "exec_status (snd (call D c x)) = exec_status (snd x)" by auto
  with Cons.prems have "changes (status_trace D cs (call D c x)) = 0"
    by (intro Cons.IH) simp
  with same show ?case by (cases cs) simp_all
qed

lemma status_trace_changes: "changes (status_trace D cs x) \<le> 1"
proof (induction cs arbitrary: x)
  case Nil
  then show ?case by simp
next
  case (Cons c cs)
  show ?case
  proof (cases "exec_status (snd (call D c x)) = exec_status (snd x)")
    case True
    with Cons.IH [of "call D c x"] show ?thesis by (cases cs) simp_all
  next
    case False
    obtain w t where x: "x = (w, t)" by (cases x)
    from False x call_status [of D c w t]
    have "exec_status (snd (call D c x)) \<noteq> STARTED" by auto
    then have "changes (status_trace D cs (call D c x)) = 0"
      by (rule status_trace_frozen)
    then show ?thesis by (cases cs) simp_all
  qed
qed

subsection \<open>Auxiliary facts: the handler's map and the batch loops\<close>


lemma set_set_insert: "set (set_insert x ys) = insert x (set ys)"
  by (induction ys) auto

lemma sorted_set_insert: "sorted_wrt (<) ys \<Longrightarrow> sorted_wrt (<) (set_insert x ys)"
  by (induction ys) (auto simp: set_set_insert)

lemma fst_at_cf: "fst ` set (at_cf cf f m) = insert cf (fst ` set m)"
  by (induction cf f m rule: at_cf.induct) auto

lemma keys_inv_at_cf:
  assumes "keys_inv m" and "\<And>ks. sorted_wrt (<) ks \<Longrightarrow> sorted_wrt (<) (f ks)"
  shows "keys_inv (at_cf cf f m)"
  using assms(1)
proof (induction m)
  case Nil
  then show ?case using assms(2) [of "[]"] by (simp add: keys_inv_def)
next
  case (Cons a m)
  obtain c ks where a: "a = (c, ks)" by (cases a)
  from Cons.prems a have tl: "keys_inv m" and ks: "sorted_wrt (<) ks"
    and lt: "\<forall>c' \<in> fst ` set m. c < c'"
    by (auto simp: keys_inv_def)
  from Cons.IH [OF tl] have ih: "keys_inv (at_cf cf f m)" .
  show ?case
  proof (cases "cf < c")
    case True
    with Cons.prems a assms(2) [of "[]"] show ?thesis
      by (auto simp: keys_inv_def)
  next
    case False
    show ?thesis
    proof (cases "cf = c")
      case True
      with Cons.prems a assms(2) [OF ks] show ?thesis
        by (auto simp: keys_inv_def)
    next
      case neq: False
      with False have "c < cf" by simp
      with ih lt ks a False neq show ?thesis
        using fst_at_cf [of cf f m]
        by (auto simp: keys_inv_def)
    qed
  qed
qed


lemma lock_plan_Cons: "lock_plan ((c, ks) # m) = map (Pair c) ks @ lock_plan m"
  by (simp add: lock_plan_def)

lemma lock_plan_Nil: "lock_plan [] = []"
  by (simp add: lock_plan_def)

lemma fst_lock_plan: "x \<in> set (lock_plan m) \<Longrightarrow> fst x \<in> fst ` set m"
proof (induction m)
  case Nil
  then show ?case by (simp add: lock_plan_Nil)
next
  case (Cons a m)
  then show ?case by (cases a) (auto simp: lock_plan_Cons)
qed

lemma set_plan_at_cf:
  assumes "\<And>ks. set (f ks) = insert key (set ks)"
  shows "set (lock_plan (at_cf cf f m)) = insert (cf, key) (set (lock_plan m))"
proof (induction m)
  case Nil
  show ?case by (auto simp: lock_plan_Cons lock_plan_Nil assms)
next
  case (Cons a m)
  then show ?case by (cases a) (auto simp: lock_plan_Cons assms)
qed

lemma set_plan_RecordKey:
  "set (lock_plan (RecordKey m cf key)) = insert (cf, key) (set (lock_plan m))"
  unfolding RecordKey_def
  by (rule set_plan_at_cf) (auto simp: set_set_insert)

lemma keys_inv_RecordKey: "keys_inv m \<Longrightarrow> keys_inv (RecordKey m cf key)"
  unfolding RecordKey_def
  by (rule keys_inv_at_cf) (auto simp: sorted_set_insert)

lemma keys_inv_Handler_visit: "keys_inv m \<Longrightarrow> keys_inv (Handler_visit m wop)"
  by (cases wop) (simp_all add: keys_inv_RecordKey)

lemma set_plan_Handler_visit:
  "set (lock_plan (Handler_visit m wop)) = insert (op_key wop) (set (lock_plan m))"
  by (cases wop) (simp_all add: set_plan_RecordKey)

lemma foldl_Handler_visit:
  "keys_inv m \<Longrightarrow>
     keys_inv (foldl Handler_visit m batch) \<and>
     set (lock_plan (foldl Handler_visit m batch)) = set (lock_plan m) \<union> batch_keys batch"
  by (induction batch arbitrary: m)
     (auto simp: batch_keys_def keys_inv_Handler_visit set_plan_Handler_visit)

lemma keys_inv_Iterate: "keys_inv (Iterate batch)"
  using foldl_Handler_visit [of "[]" batch] by (simp add: Iterate_def keys_inv_def)

lemma set_plan_Iterate: "set (lock_plan (Iterate batch)) = batch_keys batch"
  using foldl_Handler_visit [of "[]" batch] by (simp add: Iterate_def keys_inv_def lock_plan_Nil)

lemma plan_less_iff: "plan_less a b = (a < b)"
  by (auto simp: plan_less_def less_prod_def)

lemma sorted_lock_plan: "keys_inv m \<Longrightarrow> sorted_wrt plan_less (lock_plan m)"
proof (induction m)
  case Nil
  then show ?case by (simp add: lock_plan_Nil)
next
  case (Cons a m)
  obtain c ks where a: "a = (c, ks)" by (cases a)
  from Cons.prems a have tl: "keys_inv m" and ks: "sorted_wrt (<) ks"
    and lt: "\<forall>c' \<in> fst ` set m. c < c'"
    by (auto simp: keys_inv_def)
  have head: "sorted_wrt plan_less (map (Pair c) ks)"
    using ks by (simp add: sorted_wrt_map plan_less_def)
  have cross: "\<forall>x \<in> set (map (Pair c) ks). \<forall>y \<in> set (lock_plan m). plan_less x y"
  proof (intro ballI)
    fix x y
    assume x: "x \<in> set (map (Pair c) ks)" and y: "y \<in> set (lock_plan m)"
    from y have "fst y \<in> fst ` set m" by (rule fst_lock_plan)
    with lt have "c < fst y" by blast
    with x show "plan_less x y" by (auto simp: plan_less_def)
  qed
  from head cross Cons.IH [OF tl] show ?case
    by (simp add: a lock_plan_Cons sorted_wrt_append)
qed

lemma lock_plan_sorted_list:
  "lock_plan (Iterate batch) = sorted_list_of_set (batch_keys batch)"
proof -
  have "sorted_wrt (<) (lock_plan (Iterate batch))"
    using sorted_lock_plan [OF keys_inv_Iterate, of batch]
    by (simp add: plan_less_iff [abs_def])
  then have "sorted (lock_plan (Iterate batch))" and "distinct (lock_plan (Iterate batch))"
    by (simp_all add: strict_sorted_iff)
  then have "sorted_list_of_set (set (lock_plan (Iterate batch))) = lock_plan (Iterate batch)"
    by (rule sorted_list_of_set.idem_if_sorted_distinct)
  then show ?thesis by (simp add: set_plan_Iterate)
qed

lemma has_key_put_key:
  "has_key (put_key m cf key seq) ck = (ck = (cf, key) \<or> has_key m ck)"
  by (cases ck) (auto simp: has_key_def key_seq_def put_key_def split: option.splits)

lemma has_key_insert_key:
  "has_key (insert_key m cf key seq) ck = (ck = (cf, key) \<or> has_key m ck)"
  by (auto simp: insert_key_def has_key_put_key)

lemma has_key_noted: "has_key (noted m got) ck = (ck \<in> set got \<or> has_key m ck)"
  by (induction got arbitrary: m) (auto simp: noted_def has_key_insert_key)

lemma noted_Cons:
  "noted m (ck # got) = noted (insert_key m (fst ck) (snd ck) kMaxSequenceNumber) got"
  by (simp add: noted_def)

lemma txn_db_TryLock_eq:
  "txn_db_TryLock w t cf key =
     (if free_for w t (cf, key) then (OK, granted w t [(cf, key)] [(cf, key)])
      else (LockTimeout, granted w t [] [(cf, key)]))"
  by (auto simp: txn_db_TryLock_def free_for_def granted_def fun_eq_iff
      split: option.splits intro!: World.equality)

lemma free_for_granted:
  "\<forall>ck \<in> set got. free_for w t ck \<Longrightarrow> free_for (granted w t got asked) t = free_for w t"
  by (auto simp: free_for_def granted_def fun_eq_iff)

lemma granted_granted:
  "granted (granted w t got asked) t got' asked' = granted w t (got @ got') (asked @ asked')"
  by (auto simp: granted_def fun_eq_iff intro!: World.equality)

lemma granted_Nil: "granted w t [] [] = w"
  by (simp add: granted_def)

lemma lock_keys_eq:
  "lock_keys w t cf ks m =
     (if \<forall>ck \<in> set (map (Pair cf) ks). free_for w t ck then OK else LockTimeout,
      granted w t (takeWhile (free_for w t) (map (Pair cf) ks))
        (take (Suc (length (takeWhile (free_for w t) (map (Pair cf) ks)))) (map (Pair cf) ks)),
      noted m (takeWhile (free_for w t) (map (Pair cf) ks)))"
proof (induction ks arbitrary: w m)
  case Nil
  show ?case by (simp add: granted_Nil noted_def)
next
  case (Cons key ks)
  show ?case
  proof (cases "free_for w t (cf, key)")
    case True
    then have ff: "free_for (granted w t [(cf, key)] [(cf, key)]) t = free_for w t"
      by (intro free_for_granted) simp
    from True show ?thesis
      by (simp add: txn_db_TryLock_eq ok_def Cons.IH ff granted_granted noted_Cons)
  next
    case False
    then show ?thesis
      by (auto simp: txn_db_TryLock_eq ok_def noted_def)
  qed
qed


lemma noted_append: "noted m (xs @ ys) = noted (noted m xs) ys"
  by (simp add: noted_def)

lemma takeWhile_not_all:
  "\<not> (\<forall>x \<in> set xs. P x) \<Longrightarrow>
     takeWhile P (xs @ ys) = takeWhile P xs \<and>
     take (Suc (length (takeWhile P xs))) (xs @ ys) = take (Suc (length (takeWhile P xs))) xs"
proof -
  assume a: "\<not> (\<forall>x \<in> set xs. P x)"
  then obtain x where "x \<in> set xs" and "\<not> P x" by blast
  then have 1: "takeWhile P (xs @ ys) = takeWhile P xs" by (rule takeWhile_append1)
  from a have "length (takeWhile P xs) < length xs"
    by (induction xs) auto
  then have "Suc (length (takeWhile P xs)) \<le> length xs" by simp
  then have 2: "take (Suc (length (takeWhile P xs))) (xs @ ys)
      = take (Suc (length (takeWhile P xs))) xs" by simp
  from 1 2 show ?thesis by simp
qed

lemma takeWhile_all: "\<forall>x \<in> set xs. P x \<Longrightarrow> takeWhile P xs = xs"
  by (induction xs) auto

lemma lock_cfs_eq:
  "lock_cfs w t m ktu =
     (if \<forall>ck \<in> set (lock_plan m). free_for w t ck then OK else LockTimeout,
      granted w t (takeWhile (free_for w t) (lock_plan m))
        (take (Suc (length (takeWhile (free_for w t) (lock_plan m)))) (lock_plan m)),
      noted ktu (takeWhile (free_for w t) (lock_plan m)))"
proof (induction m arbitrary: w ktu)
  case Nil
  show ?case by (simp add: lock_plan_Nil granted_Nil noted_def)
next
  case (Cons a m)
  obtain cf ks where a: "a = (cf, ks)" by (cases a)
  let ?P = "free_for w t"
  let ?ks = "map (Pair cf) ks"
  show ?case
  proof (cases "\<forall>ck \<in> set ?ks. ?P ck")
    case True
    then have tw: "takeWhile ?P ?ks = ?ks" by (rule takeWhile_all)
    from True have ff: "free_for (granted w t ?ks ?ks) t = ?P"
      by (rule free_for_granted)
    from True have "\<And>x. x \<in> set ?ks \<Longrightarrow> ?P x" by blast
    then have tw2: "takeWhile ?P (?ks @ lock_plan m) = ?ks @ takeWhile ?P (lock_plan m)"
      by (rule takeWhile_append2)
    from True have all: "(\<forall>ck \<in> set (?ks @ lock_plan m). ?P ck)
        = (\<forall>ck \<in> set (lock_plan m). ?P ck)" by auto
    from True show ?thesis
      unfolding a lock_plan_Cons tw2 all
      by (simp add: lock_keys_eq tw ok_def Cons.IH ff granted_granted noted_append
          del: set_map set_append)
  next
    case False
    from False have all: "(\<forall>ck \<in> set (?ks @ lock_plan m). ?P ck) = False" by auto
    note tw = takeWhile_not_all [OF False, of "lock_plan m"]
    have lk: "lock_keys w t cf ks ktu =
        (LockTimeout,
         granted w t (takeWhile ?P ?ks) (take (Suc (length (takeWhile ?P ?ks))) ?ks),
         noted ktu (takeWhile ?P ?ks))"
      using False unfolding lock_keys_eq by simp
    show ?thesis
      unfolding a lock_plan_Cons all tw [THEN conjunct1] tw [THEN conjunct2]
      by (simp add: lk ok_def)
  qed
qed

lemma LockBatch_eq:
  "LockBatch w t batch ktu =
     (let plan = lock_plan (Iterate batch);
          got = takeWhile (free_for w t) plan;
          w' = granted w t got (take (Suc (length got)) plan);
          ktu' = noted ktu got
      in if \<forall>ck \<in> set plan. free_for w t ck then (OK, w', ktu')
         else (LockTimeout, txn_db_UnLock w' t ktu', ktu'))"
  by (simp add: LockBatch_def lock_cfs_eq ok_def Let_def)

lemma has_key_empty: "has_key Map.empty ck = False"
  by (simp add: has_key_def key_seq_def)

lemma takeWhile_free_subset:
  "ck \<in> set (takeWhile (free_for w t) plan) \<Longrightarrow> free_for w t ck \<and> ck \<in> set plan"
  using set_takeWhileD [of ck "free_for w t" plan] by blast

subsection \<open>Auxiliary facts: locking one key\<close>

lemma tracked_keys_SetSnapshotIfNeeded [simp]:
  "tracked_keys (SetSnapshotIfNeeded D w t) = tracked_keys t"
  "save_points (SetSnapshotIfNeeded D w t) = save_points t"
  "write_batch (SetSnapshotIfNeeded D w t) = write_batch t"
  "txn_id (SetSnapshotIfNeeded D w t) = txn_id t"
  by (simp_all add: SetSnapshotIfNeeded_def SetSnapshot_def)

lemma SetSnapshotIfNeeded_db:
  "SetSnapshotIfNeeded D (w\<lparr>acquire_calls := a\<rparr>) t = SetSnapshotIfNeeded D w t"
  "SetSnapshotIfNeeded D (w\<lparr>lock_map := m\<rparr>) t = SetSnapshotIfNeeded D w t"
  by (simp_all add: SetSnapshotIfNeeded_def SetSnapshot_def)

lemma key_seq_lookup:
  "(case m cf of None \<Rightarrow> (False, d)
    | Some km \<Rightarrow> (case km key of None \<Rightarrow> (False, d) | Some seq \<Rightarrow> (True, seq)))
   = (case key_seq m (cf, key) of None \<Rightarrow> (False, d) | Some seq \<Rightarrow> (True, seq))"
  by (simp add: key_seq_def split: option.splits)

text \<open>\<open>TryLock\<close> on a key the ledger holds at sequence number \<open>seq\<close>.\<close>
lemma TryLock_held:
  assumes "key_seq (tracked_keys t) (cf, key) = Some seq"
  shows "TryLock D w t cf key untracked =
     (let t1 = SetSnapshotIfNeeded D w t
      in case (if untracked then None else snapshot t1) of
           None \<Rightarrow>
             (OK, w,
              TrackKey t1 cf key
                (if seq = kMaxSequenceNumber then GetLatestSequenceNumber D (db w) else seq))
         | Some sn \<Rightarrow>
             (if seq \<le> sn then (OK, w, TrackKey t1 cf key kMaxSequenceNumber)
              else if CheckKeyForConflicts D (db w) cf key sn = OK
              then (OK, w\<lparr>db_calls := db_calls w @ [ConflictCheckCall cf key sn]\<rparr>,
                    TrackKey t1 cf key sn)
              else (CheckKeyForConflicts D (db w) cf key sn,
                    w\<lparr>db_calls := db_calls w @ [ConflictCheckCall cf key sn]\<rparr>, t1)))"
proof -
  have look: "(case GetTrackedKeys t cf of None \<Rightarrow> (False, kMaxSequenceNumber)
      | Some km \<Rightarrow> (case km key of None \<Rightarrow> (False, kMaxSequenceNumber)
                     | Some seq \<Rightarrow> (True, seq))) = (True, seq)"
    using assms unfolding GetTrackedKeys_def key_seq_lookup by simp
  show ?thesis
    unfolding TryLock_def look
    by (simp add: Let_def ok_def ValidateSnapshot_def db_CheckKeyForConflicts_def
        split: option.split)
qed


lemma txn_db_TryLock_free:
  assumes "free_for w t (cf, key)"
  shows "txn_db_TryLock w t cf key =
     (OK, w\<lparr>acquire_calls := acquire_calls w @ [(cf, key)],
             lock_map := (lock_map w)((cf, key) \<mapsto> txn_id t)\<rparr>)"
proof (cases "lock_map w (cf, key)")
  case None
  then show ?thesis by (simp add: txn_db_TryLock_def)
next
  case (Some h)
  with assms have h: "lock_map w (cf, key) = Some (txn_id t)" by (simp add: free_for_def)
  then have "(lock_map w)((cf, key) \<mapsto> txn_id t) = lock_map w" by (rule map_upd_triv)
  with h show ?thesis by (simp add: txn_db_TryLock_def)
qed

lemma txn_db_TryLock_blocked:
  assumes "\<not> free_for w t (cf, key)"
  shows "txn_db_TryLock w t cf key =
     (LockTimeout, w\<lparr>acquire_calls := acquire_calls w @ [(cf, key)]\<rparr>)"
  using assms by (auto simp: txn_db_TryLock_def free_for_def split: option.splits)

lemma unlock_after_lock:
  "(\<lambda>ck. if ck = k \<and> (m(k \<mapsto> tid)) ck = Some tid then None else (m(k \<mapsto> tid)) ck)
     = m(k := None)"
  by (auto simp: fun_eq_iff)

text \<open>\<open>TryLock\<close> on a key the ledger does not hold.\<close>
lemma TryLock_new:
  assumes "key_seq (tracked_keys t) (cf, key) = None"
  shows "TryLock D w t cf key untracked =
     (let t1 = SetSnapshotIfNeeded D w t;
          asked = w\<lparr>acquire_calls := acquire_calls w @ [(cf, key)]\<rparr>
      in if \<not> free_for w t (cf, key) then (LockTimeout, asked, t1)
         else
           (let w1 = asked\<lparr>lock_map := (lock_map w)((cf, key) \<mapsto> txn_id t)\<rparr>
            in case (if untracked then None else snapshot t1) of
                 None \<Rightarrow> (OK, w1, TrackKey t1 cf key (GetLatestSequenceNumber D (db w)))
               | Some seq \<Rightarrow>
                   (if kMaxSequenceNumber \<le> seq
                    then (OK, w1, TrackKey t1 cf key kMaxSequenceNumber)
                    else if CheckKeyForConflicts D (db w) cf key seq = OK
                    then (OK, w1\<lparr>db_calls := db_calls w @ [ConflictCheckCall cf key seq]\<rparr>,
                          TrackKey t1 cf key seq)
                    else (CheckKeyForConflicts D (db w) cf key seq,
                          asked\<lparr>db_calls := db_calls w @ [ConflictCheckCall cf key seq],
                                lock_map := (lock_map w)((cf, key) := None)\<rparr>,
                          t1))))"
proof -
  have look: "(case GetTrackedKeys t cf of None \<Rightarrow> (False, kMaxSequenceNumber)
      | Some km \<Rightarrow> (case km key of None \<Rightarrow> (False, kMaxSequenceNumber)
                     | Some seq \<Rightarrow> (True, seq))) = (False, kMaxSequenceNumber)"
    using assms unfolding GetTrackedKeys_def key_seq_lookup by simp
  show ?thesis
  proof (cases "free_for w t (cf, key)")
    case True
    show ?thesis
      unfolding TryLock_def look
      by (simp add: Let_def txn_db_TryLock_free [OF True] True ok_def ValidateSnapshot_def
          db_CheckKeyForConflicts_def txn_db_UnLock_key_def SetSnapshotIfNeeded_db
          split: option.split)
        (auto simp: fun_eq_iff)
  next
    case False
    show ?thesis
      unfolding TryLock_def look
      by (simp add: Let_def txn_db_TryLock_blocked [OF False] False ok_def
          SetSnapshotIfNeeded_db split: option.split)
  qed
qed


lemma has_key_iff: "has_key m ck = (key_seq m ck \<noteq> None)"
  by (simp add: has_key_def)

text \<open>What a failed \<open>TryLock\<close> leaves behind.\<close>
lemma TryLock_failed:
  assumes "TryLock D w t cf key untracked = (s, w', t')" and "\<not> ok s"
  shows "t' = SetSnapshotIfNeeded D w t"
    and "lock_map w' = lock_map w \<or>
         (key_seq (tracked_keys t) (cf, key) = None \<and> free_for w t (cf, key) \<and>
          lock_map w' = (lock_map w)((cf, key) := None))"
proof -
  have "t' = SetSnapshotIfNeeded D w t \<and>
        (lock_map w' = lock_map w \<or>
         (key_seq (tracked_keys t) (cf, key) = None \<and> free_for w t (cf, key) \<and>
          lock_map w' = (lock_map w)((cf, key) := None)))"
  proof (cases "key_seq (tracked_keys t) (cf, key)")
    case None
    from assms show ?thesis
      unfolding TryLock_new [OF None]
      by (simp add: Let_def ok_def None split: if_splits option.splits) auto
  next
    case (Some seq)
    from assms show ?thesis
      unfolding TryLock_held [OF Some]
      by (simp add: Let_def ok_def split: if_splits option.splits) auto
  qed
  then show "t' = SetSnapshotIfNeeded D w t"
    and "lock_map w' = lock_map w \<or>
         (key_seq (tracked_keys t) (cf, key) = None \<and> free_for w t (cf, key) \<and>
          lock_map w' = (lock_map w)((cf, key) := None))"
    by simp_all
qed

lemma key_seq_put_key:
  "key_seq (put_key m cf key seq) ck = (if ck = (cf, key) then Some seq else key_seq m ck)"
  by (cases ck) (auto simp: key_seq_def put_key_def split: option.splits)

lemma key_seq_TrackKey:
  "key_seq (tracked_keys (TrackKey t cf key seq)) ck =
     (if ck = (cf, key) then Some seq else key_seq (tracked_keys t) ck)"
  by (simp add: TrackKey_def Let_def key_seq_put_key split: list.splits)

lemma ValidateSnapshot_known:
  "prev_seqno \<le> seq \<Longrightarrow> ValidateSnapshot D w seq cf key prev_seqno new_seqno = (OK, new_seqno, w)"
  by (simp add: ValidateSnapshot_def)

subsection \<open>Auxiliary facts: commit and construction\<close>

lemma DoCommit_frame:
  "lock_map (fst (snd (DoCommit D w t batch))) = lock_map w"
  "tracked_keys (snd (snd (DoCommit D w t batch))) = tracked_keys t"
  "txn_id (snd (snd (DoCommit D w t batch))) = txn_id t"
  "expiration_time (snd (snd (DoCommit D w t batch))) = expiration_time t"
  by (simp_all add: DoCommit_def cas_STARTED db_Write_def split: prod.splits)

lemma new_TransactionImpl_fields:
  assumes "new_TransactionImpl D w default_timeout opts = (w', t)"
  shows "start_time t = now_micros w"
    and "expiration_time t =
           (if 0 \<le> sint (expiration opts) then now_micros w + expiration opts * 1000 else 0)"
    and "exec_status t = STARTED"
    and "txn_id t = txn_id_counter w"
    and "expirable_txns w' =
           (if 0 < expiration_time t then insert (txn_id t) (expirable_txns w)
            else expirable_txns w)"
    and "tracked_keys t = Map.empty"
  using assms
  by (auto simp: new_TransactionImpl_def GenTxnID_def SetSnapshot_def Let_def
      InsertExpirableTransaction_def split: if_splits)

subsection \<open>Auxiliary facts: savepoints\<close>

lemma TrackKey_fields [simp]:
  "txn_id (TrackKey t cf key seq) = txn_id t"
  "write_batch (TrackKey t cf key seq) = write_batch t"
  by (simp_all add: TrackKey_def Let_def split: list.splits)

lemma has_key_TrackKey:
  "has_key (tracked_keys (TrackKey t cf key seq)) ck = (ck = (cf, key) \<or> has_key (tracked_keys t) ck)"
  by (simp add: has_key_iff key_seq_TrackKey)

lemma save_points_TrackKey_held:
  "has_key (tracked_keys t) (cf, key) \<Longrightarrow> save_points (TrackKey t cf key seq) = save_points t"
  by (simp add: TrackKey_def Let_def)

lemma save_points_TrackKey_new:
  "\<not> has_key (tracked_keys t) (cf, key) \<Longrightarrow> save_points t = sp # sps \<Longrightarrow>
     save_points (TrackKey t cf key seq) = sp\<lparr>new_keys := put_key (new_keys sp) cf key seq\<rparr> # sps"
  by (simp add: TrackKey_def Let_def)

lemma has_key_remove_keys:
  "has_key (remove_keys m gone) ck = (has_key m ck \<and> \<not> has_key gone ck)"
  by (cases ck) (auto simp: has_key_def key_seq_def remove_keys_def split: option.splits)

text \<open>What one \<open>TryLock\<close> does to the ledger and the lock table.\<close>
lemma TryLock_effect:
  assumes "TryLock D w t cf key untracked = (s, w', t')"
  shows "(\<exists>seq. t' = TrackKey (SetSnapshotIfNeeded D w t) cf key seq \<and>
            (has_key (tracked_keys t) (cf, key) \<and> lock_map w' = lock_map w
             \<or> \<not> has_key (tracked_keys t) (cf, key) \<and> free_for w t (cf, key) \<and>
               lock_map w' = (lock_map w)((cf, key) \<mapsto> txn_id t)))
         \<or> (t' = SetSnapshotIfNeeded D w t \<and>
            (lock_map w' = lock_map w
             \<or> \<not> has_key (tracked_keys t) (cf, key) \<and> free_for w t (cf, key) \<and>
               lock_map w' = (lock_map w)((cf, key) := None)))"
proof (cases "key_seq (tracked_keys t) (cf, key)")
  case None
  then have nh: "\<not> has_key (tracked_keys t) (cf, key)" by (simp add: has_key_iff)
  from assms nh show ?thesis
    unfolding TryLock_new [OF None]
    by (simp add: Let_def split: if_splits option.splits) auto
next
  case (Some seq)
  then have h: "has_key (tracked_keys t) (cf, key)" by (simp add: has_key_iff)
  from assms h show ?thesis
    unfolding TryLock_held [OF Some]
    by (simp add: Let_def split: if_splits option.splits) auto
qed


lemma has_key_Map_empty [simp]: "has_key Map.empty ck = False"
  by (simp add: has_key_def key_seq_def)

lemma since_savepoint_init: "since_savepoint w0 t0 (w0, SetSavePoint t0)"
  by (simp add: since_savepoint_def SetSavePoint_def)

lemma since_savepoint_I:
  assumes "txn_id t = txn_id t0"
    and "save_points t = \<lparr>batch_mark = length (write_batch t0), new_keys = nk\<rparr> # save_points t0"
    and "\<And>ck. has_key nk ck = (has_key (tracked_keys t) ck \<and> \<not> has_key (tracked_keys t0) ck)"
    and "\<And>ck. has_key (tracked_keys t0) ck \<Longrightarrow>
           has_key (tracked_keys t) ck \<and> lock_map w ck = lock_map w0 ck"
    and "take (length (write_batch t0)) (write_batch t) = write_batch t0"
    and "\<And>ck. lock_map w0 ck \<noteq> Some (txn_id t0) \<Longrightarrow>
           lock_map w ck = lock_map w0 ck
           \<or> (lock_map w0 ck = None \<and> lock_map w ck = Some (txn_id t0)
               \<and> has_key (tracked_keys t) ck)"
  shows "since_savepoint w0 t0 (w, t)"
  unfolding since_savepoint_def using assms by auto

lemma since_savepoint_D:
  assumes "since_savepoint w0 t0 (w, t)"
  shows "\<exists>nk. txn_id t = txn_id t0
    \<and> save_points t = \<lparr>batch_mark = length (write_batch t0), new_keys = nk\<rparr> # save_points t0
    \<and> (\<forall>ck. has_key nk ck = (has_key (tracked_keys t) ck \<and> \<not> has_key (tracked_keys t0) ck))
    \<and> (\<forall>ck. has_key (tracked_keys t0) ck \<longrightarrow>
           has_key (tracked_keys t) ck \<and> lock_map w ck = lock_map w0 ck)
    \<and> take (length (write_batch t0)) (write_batch t) = write_batch t0
    \<and> (\<forall>ck. lock_map w0 ck \<noteq> Some (txn_id t0) \<longrightarrow>
           lock_map w ck = lock_map w0 ck
           \<or> (lock_map w0 ck = None \<and> lock_map w ck = Some (txn_id t0)
               \<and> has_key (tracked_keys t) ck))"
  using assms unfolding since_savepoint_def by simp

lemma since_savepoint_TryLock:
  assumes inv: "since_savepoint w0 t0 (w, t)"
    and call: "TryLock D w t cf key untracked = (s, w', t')"
  shows "since_savepoint w0 t0 (w', t')"
proof -
  let ?t1 = "SetSnapshotIfNeeded D w t"
  from since_savepoint_D [OF inv] obtain nk where tid: "txn_id t = txn_id t0"
    and sp: "save_points t = \<lparr>batch_mark = length (write_batch t0), new_keys = nk\<rparr> # save_points t0"
    and nk': "\<forall>ck. has_key nk ck = (has_key (tracked_keys t) ck \<and> \<not> has_key (tracked_keys t0) ck)"
    and old': "\<forall>ck. has_key (tracked_keys t0) ck \<longrightarrow>
           has_key (tracked_keys t) ck \<and> lock_map w ck = lock_map w0 ck"
    and bt: "take (length (write_batch t0)) (write_batch t) = write_batch t0"
    and oth': "\<forall>ck. lock_map w0 ck \<noteq> Some (txn_id t0) \<longrightarrow>
           lock_map w ck = lock_map w0 ck
           \<or> (lock_map w0 ck = None \<and> lock_map w ck = Some (txn_id t0)
               \<and> has_key (tracked_keys t) ck)"
    by blast
  note nk = nk' [rule_format] and old = old' [rule_format] and oth = oth' [rule_format]
  text \<open>A key that is free for the transaction and not in its ledger was free at the savepoint,
    unless the transaction held it then.\<close>
  have was_free: "lock_map w0 (cf, key) = None"
    if "\<not> has_key (tracked_keys t) (cf, key)" and "free_for w t (cf, key)"
      and "lock_map w0 (cf, key) \<noteq> Some (txn_id t0)"
  proof -
    from oth [OF that(3)] that(1) have "lock_map w (cf, key) = lock_map w0 (cf, key)" by blast
    with that(2,3) tid show ?thesis by (simp add: free_for_def)
  qed
  from TryLock_effect [OF call]
  consider
    (relock) seq where "t' = TrackKey ?t1 cf key seq" "has_key (tracked_keys t) (cf, key)"
      "lock_map w' = lock_map w"
  | (lock) seq where "t' = TrackKey ?t1 cf key seq" "\<not> has_key (tracked_keys t) (cf, key)"
      "free_for w t (cf, key)" "lock_map w' = (lock_map w)((cf, key) \<mapsto> txn_id t)"
  | (same) "t' = ?t1" "lock_map w' = lock_map w"
  | (undone) "t' = ?t1" "\<not> has_key (tracked_keys t) (cf, key)"
      "free_for w t (cf, key)" "lock_map w' = (lock_map w)((cf, key) := None)"
    by blast
  then show ?thesis
  proof cases
    case relock
    then have hk: "\<And>ck. has_key (tracked_keys t') ck = has_key (tracked_keys t) ck"
      by (auto simp: has_key_TrackKey)
    from relock have sp': "save_points t' = save_points t"
      by (simp add: save_points_TrackKey_held)
    show ?thesis
    proof (rule since_savepoint_I [where nk = nk])
      show "txn_id t' = txn_id t0" by (simp add: relock(1) tid)
      show "save_points t' =
        \<lparr>batch_mark = length (write_batch t0), new_keys = nk\<rparr> # save_points t0"
        by (simp add: sp' sp)
      show "has_key nk ck = (has_key (tracked_keys t') ck \<and> \<not> has_key (tracked_keys t0) ck)" for ck
        by (simp add: hk nk)
      show "has_key (tracked_keys t') ck \<and> lock_map w' ck = lock_map w0 ck"
        if "has_key (tracked_keys t0) ck" for ck
        using old [OF that] by (simp add: hk relock(3))
      show "take (length (write_batch t0)) (write_batch t') = write_batch t0"
        by (simp add: relock(1) bt)
      show "lock_map w' ck = lock_map w0 ck
           \<or> (lock_map w0 ck = None \<and> lock_map w' ck = Some (txn_id t0)
               \<and> has_key (tracked_keys t') ck)"
        if "lock_map w0 ck \<noteq> Some (txn_id t0)" for ck
        using oth [OF that] by (simp add: hk relock(3))
    qed
  next
    case lock
    have hk: "\<And>ck. has_key (tracked_keys t') ck = (ck = (cf, key) \<or> has_key (tracked_keys t) ck)"
      by (simp add: lock(1) has_key_TrackKey)
    have sp': "save_points t' =
        \<lparr>batch_mark = length (write_batch t0), new_keys = put_key nk cf key seq\<rparr> # save_points t0"
      using lock(2) sp by (simp add: lock(1) save_points_TrackKey_new)
    have fresh: "\<not> has_key (tracked_keys t0) (cf, key)"
      using old [of "(cf, key)"] lock(2) by blast
    show ?thesis
    proof (rule since_savepoint_I [where nk = "put_key nk cf key seq"])
      show "txn_id t' = txn_id t0" by (simp add: lock(1) tid)
      show "save_points t' =
        \<lparr>batch_mark = length (write_batch t0), new_keys = put_key nk cf key seq\<rparr> # save_points t0"
        by (rule sp')
      show "has_key (put_key nk cf key seq) ck =
          (has_key (tracked_keys t') ck \<and> \<not> has_key (tracked_keys t0) ck)" for ck
        using fresh by (auto simp: has_key_put_key hk nk)
      show "has_key (tracked_keys t') ck \<and> lock_map w' ck = lock_map w0 ck"
        if "has_key (tracked_keys t0) ck" for ck
        using old [OF that] that fresh by (auto simp: hk lock(4))
      show "take (length (write_batch t0)) (write_batch t') = write_batch t0"
        by (simp add: lock(1) bt)
      show "lock_map w' ck = lock_map w0 ck
           \<or> (lock_map w0 ck = None \<and> lock_map w' ck = Some (txn_id t0)
               \<and> has_key (tracked_keys t') ck)"
        if "lock_map w0 ck \<noteq> Some (txn_id t0)" for ck
      proof (cases "ck = (cf, key)")
        case True
        with was_free [OF lock(2,3)] that show ?thesis
          by (simp add: lock(4) hk tid)
      next
        case False
        with oth [OF that] show ?thesis by (auto simp: lock(4) hk)
      qed
    qed
  next
    case same
    show ?thesis
      by (rule since_savepoint_I [where nk = nk])
         (simp_all add: same tid sp nk old bt oth)
  next
    case undone
    have fresh: "\<not> has_key (tracked_keys t0) (cf, key)"
      using old [of "(cf, key)"] undone(2) by blast
    show ?thesis
    proof (rule since_savepoint_I [where nk = nk])
      show "txn_id t' = txn_id t0" by (simp add: undone(1) tid)
      show "save_points t' =
        \<lparr>batch_mark = length (write_batch t0), new_keys = nk\<rparr> # save_points t0"
        by (simp add: undone(1) sp)
      show "has_key nk ck = (has_key (tracked_keys t') ck \<and> \<not> has_key (tracked_keys t0) ck)" for ck
        by (simp add: undone(1) nk)
      show "has_key (tracked_keys t') ck \<and> lock_map w' ck = lock_map w0 ck"
        if "has_key (tracked_keys t0) ck" for ck
        using old [OF that] that fresh by (auto simp: undone(1,4))
      show "take (length (write_batch t0)) (write_batch t') = write_batch t0"
        by (simp add: undone(1) bt)
      show "lock_map w' ck = lock_map w0 ck
           \<or> (lock_map w0 ck = None \<and> lock_map w' ck = Some (txn_id t0)
               \<and> has_key (tracked_keys t') ck)"
        if "lock_map w0 ck \<noteq> Some (txn_id t0)" for ck
      proof (cases "ck = (cf, key)")
        case True
        with was_free [OF undone(2,3)] that show ?thesis
          by (simp add: undone(4))
      next
        case False
        with oth [OF that] show ?thesis by (auto simp: undone(1,4))
      qed
    qed
  qed
qed


lemma since_savepoint_call:
  assumes "locks_or_stages c" and inv: "since_savepoint w0 t0 x"
  shows "since_savepoint w0 t0 (call D c x)"
proof -
  obtain w t where x: "x = (w, t)" by (cases x)
  from assms(1) show ?thesis
  proof (cases c)
    case (CallTryLock cf key untracked)
    obtain s w' t' where tl: "TryLock D w t cf key untracked = (s, w', t')"
      by (cases "TryLock D w t cf key untracked")
    from since_savepoint_TryLock [OF inv [unfolded x] tl] show ?thesis
      by (simp add: x CallTryLock tl)
  next
    case (CallStage wop)
    from since_savepoint_D [OF inv [unfolded x]]
    have "take (length (write_batch t0)) (write_batch t) = write_batch t0" by blast
    then have "length (take (length (write_batch t0)) (write_batch t)) = length (write_batch t0)"
      by simp
    then have "length (write_batch t0) \<le> length (write_batch t)"
      by simp
    with inv show ?thesis
      by (simp add: x CallStage since_savepoint_def)
  qed simp_all
qed

lemma since_savepoint_run:
  "\<forall>c \<in> set cs. locks_or_stages c \<Longrightarrow> since_savepoint w0 t0 x \<Longrightarrow>
     since_savepoint w0 t0 (run D cs x)"
  by (induction cs arbitrary: x) (simp_all add: since_savepoint_call)

subsection \<open>The commit write and the status flag\<close>

text \<open>
  Claim C4. \<^verbatim>\<open>DoCommit\<close>, for every store, world, transaction and batch: when the
  expiration is set (\<open>0 < expiration_time\<close>) and either the clock has reached
  it at the check before the exchange or the exchange from \<open>STARTED\<close> to
  \<open>COMMITTING\<close> fails (the flag is not \<open>STARTED\<close>), the call returns \<open>Expired\<close>
  and leaves the world as it was: the store is not written and no call is made
  on it. In every other case (no expiration, or the exchange succeeds) the
  batch is written to the store once and the call returns what the write
  returned. \<^verbatim>\<open>Commit\<close> passes the pending batch.
\<close>
theorem DoCommit_outcome:
  "DoCommit D w t batch =
     (if 0 < expiration_time t \<and> (IsExpired w t \<or> exec_status t \<noteq> STARTED)
      then (Expired, w, t)
      else (fst (Write D (db w) batch),
            w\<lparr>db := snd (Write D (db w) batch), db_calls := db_calls w @ [WriteCall batch]\<rparr>,
            if 0 < expiration_time t then t\<lparr>exec_status := COMMITTING\<rparr> else t))
   \<and> fst (atomic_compare_exchange_strong (exec_status t) STARTED COMMITTING)
       = (exec_status t = STARTED)
   \<and> IsExpired w t = (0 < expiration_time t \<and> expiration_time t \<le> now_micros w)
   \<and> fst (Commit D w t) = fst (DoCommit D w t (write_batch t))"
  by (simp add: DoCommit_def Commit_def cas_STARTED db_Write_def IsExpired_def
      split: prod.splits)

text \<open>
  The example transaction with an expiration at 100, checked at clock 50 after
  its locks were stolen: \<open>Expired\<close>, nothing written. The same transaction
  still \<open>STARTED\<close>: the batch is written.
\<close>
theorem DoCommit_outcome_witness:
  "DoCommit ex_store ex_world (ex_txn\<lparr>expiration_time := 100, exec_status := LOCKS_STOLEN\<rparr>)
     [PutCF 0 ''k1'' ''v'']
   = (Expired, ex_world, ex_txn\<lparr>expiration_time := 100, exec_status := LOCKS_STOLEN\<rparr>)
   \<and> DoCommit ex_store ex_world (ex_txn\<lparr>expiration_time := 100\<rparr>) [PutCF 0 ''k1'' ''v'']
   = (OK,
      ex_world\<lparr>db := [[PutCF 0 ''k1'' ''v'']],
               db_calls := [WriteCall [PutCF 0 ''k1'' ''v'']]\<rparr>,
      ex_txn\<lparr>expiration_time := 100, exec_status := COMMITTING\<rparr>)"
  using DoCommit_outcome [of ex_store ex_world
          "ex_txn\<lparr>expiration_time := 100, exec_status := LOCKS_STOLEN\<rparr>" "[PutCF 0 ''k1'' ''v'']"]
        DoCommit_outcome [of ex_store ex_world
          "ex_txn\<lparr>expiration_time := 100\<rparr>" "[PutCF 0 ''k1'' ''v'']"]
  by (simp add: ex_store_def ex_world_def ex_txn_def)

text \<open>
  Claim C2. For every call \<open>c\<close> on a transaction, the status flag afterwards
  is the flag before, or the flag was \<open>STARTED\<close> and either the call is a
  commit (\<^verbatim>\<open>Commit\<close>, \<^verbatim>\<open>CommitBatch\<close>) and the flag is now \<open>COMMITTING\<close>, or the call
  is \<^verbatim>\<open>TryStealingLocks\<close> and the flag is now \<open>LOCKS_STOLEN\<close>. Both exchanges
  expect \<open>STARTED\<close>: each succeeds exactly when the flag is \<open>STARTED\<close>. Over
  every sequence of calls, with any steps of the environment in between, the
  flag changes at most once, so at most one of the two transitions ever
  succeeds. A commit whose exchange fails (expiration set, not expired at the
  check, flag not \<open>STARTED\<close>) returns \<open>Expired\<close> and leaves the world, the store
  in it, untouched.

  Each call reads or writes the flag only in its one exchange, which is atomic;
  an interleaving of two threads' calls acts on the flag as the calls do in the
  order of their exchanges.
\<close>
theorem exec_status_transitions:
  "(exec_status (snd (call D c (w, t))) = exec_status t \<or>
    exec_status t = STARTED \<and>
      ((c = CallCommit \<or> (\<exists>b. c = CallCommitBatch b)) \<and>
         exec_status (snd (call D c (w, t))) = COMMITTING
       \<or> c = CallTryStealingLocks \<and> exec_status (snd (call D c (w, t))) = LOCKS_STOLEN))
   \<and> fst (atomic_compare_exchange_strong (exec_status t) STARTED COMMITTING)
       = (exec_status t = STARTED)
   \<and> fst (TryStealingLocks t) = (exec_status t = STARTED)
   \<and> changes (status_trace D cs (w, t)) \<le> 1
   \<and> (0 < expiration_time t \<and> \<not> IsExpired w t \<and> exec_status t \<noteq> STARTED \<longrightarrow>
        DoCommit D w t batch = (Expired, w, t))"
proof -
  have "0 < expiration_time t \<and> \<not> IsExpired w t \<and> exec_status t \<noteq> STARTED \<longrightarrow>
        DoCommit D w t batch = (Expired, w, t)"
    by (simp add: DoCommit_def cas_STARTED)
  then show ?thesis
    using call_status [of D c w t] status_trace_changes [of D cs "(w, t)"]
    by (simp add: cas_STARTED exec_status_TryStealingLocks)
qed

text \<open>
  The example transaction with an expiration at 100. The clock moves to 150,
  another transaction steals the locks, and a commit follows: the flag changes
  once, to \<open>LOCKS_STOLEN\<close>. A commit that read the clock at 50, before the
  steal, and reaches its exchange after it, returns \<open>Expired\<close> and writes
  nothing.
\<close>
theorem exec_status_transitions_witness:
  "status_trace ex_store
     [CallEnv (\<lambda>w. w\<lparr>now_micros := 150\<rparr>), CallTryStealingLocks, CallCommit]
     (ex_world, ex_txn\<lparr>expiration_time := 100\<rparr>)
     = [STARTED, STARTED, LOCKS_STOLEN, LOCKS_STOLEN]
   \<and> changes (status_trace ex_store
        [CallEnv (\<lambda>w. w\<lparr>now_micros := 150\<rparr>), CallTryStealingLocks, CallCommit]
        (ex_world, ex_txn\<lparr>expiration_time := 100\<rparr>)) \<le> 1
   \<and> DoCommit ex_store ex_world (ex_txn\<lparr>expiration_time := 100, exec_status := LOCKS_STOLEN\<rparr>)
        [PutCF 0 ''k1'' ''v'']
      = (Expired, ex_world, ex_txn\<lparr>expiration_time := 100, exec_status := LOCKS_STOLEN\<rparr>)"
proof -
  let ?cs = "[CallEnv (\<lambda>w. w\<lparr>now_micros := 150\<rparr>), CallTryStealingLocks, CallCommit]"
  let ?stolen = "ex_txn\<lparr>expiration_time := 100, exec_status := LOCKS_STOLEN\<rparr>"
  have pre: "0 < expiration_time ?stolen \<and> \<not> IsExpired ex_world ?stolen
      \<and> exec_status ?stolen \<noteq> STARTED"
    by (simp add: IsExpired_def ex_world_def ex_txn_def)
  have trace: "status_trace ex_store ?cs (ex_world, ex_txn\<lparr>expiration_time := 100\<rparr>)
      = [STARTED, STARTED, LOCKS_STOLEN, LOCKS_STOLEN]"
    by (simp add: exec_status_TryStealingLocks exec_status_Commit IsExpired_def
        ex_world_def ex_txn_def)
  note inst = exec_status_transitions [of ex_store CallCommit ex_world ?stolen ?cs
      "[PutCF 0 ''k1'' ''v'']"]
    and once = exec_status_transitions [of ex_store CallCommit ex_world
      "ex_txn\<lparr>expiration_time := 100\<rparr>" ?cs "[]"]
  from once have "changes (status_trace ex_store ?cs (ex_world, ex_txn\<lparr>expiration_time := 100\<rparr>))
      \<le> 1"
    by blast
  moreover from inst pre have "DoCommit ex_store ex_world ?stolen [PutCF 0 ''k1'' ''v'']
      = (Expired, ex_world, ?stolen)"
    by blast
  ultimately show ?thesis using trace by simp
qed

subsection \<open>Locking a batch\<close>

text \<open>
  Claim C3. For every batch, the lock plan (the pairs in the order the loops
  of \<^verbatim>\<open>LockBatch\<close> visit them) holds each (column family, key) pair of the batch
  exactly once, however many operations the batch stages on it, and is the
  ascending list of the batch's set of pairs: column family ids ascending, keys
  of one column family in ascending byte-lexicographic order (\<open>plan_less\<close>;
  this is the order of pairs of a 32-bit word and a \<open>string\<close>, which
  \<open>sorted_list_of_set\<close> uses). The plan is therefore a function of that set
  alone: two batches with the same set of pairs have the same plan, whatever
  the staging order. \<^verbatim>\<open>LockBatch\<close> asks the lock table for the keys of the plan
  in this order, up to and including the first one that is not granted.
\<close>
theorem LockBatch_plan_order:
  "distinct (lock_plan (Iterate batch))
   \<and> sorted_wrt plan_less (lock_plan (Iterate batch))
   \<and> set (lock_plan (Iterate batch)) = batch_keys batch
   \<and> lock_plan (Iterate batch) = sorted_list_of_set (batch_keys batch)
   \<and> (batch_keys batch' = batch_keys batch \<longrightarrow>
        lock_plan (Iterate batch') = lock_plan (Iterate batch))
   \<and> acquire_calls (fst (snd (LockBatch w t batch keys_to_unlock)))
       = acquire_calls w @
         take (Suc (length (takeWhile (free_for w t) (lock_plan (Iterate batch)))))
           (lock_plan (Iterate batch))"
proof -
  have srt: "sorted_wrt plan_less (lock_plan (Iterate batch))"
    by (rule sorted_lock_plan [OF keys_inv_Iterate])
  then have "sorted_wrt (<) (lock_plan (Iterate batch))"
    by (simp add: plan_less_iff [abs_def])
  then have dist: "distinct (lock_plan (Iterate batch))"
    by (simp add: strict_sorted_iff)
  have calls: "acquire_calls (fst (snd (LockBatch w t batch keys_to_unlock)))
       = acquire_calls w @
         take (Suc (length (takeWhile (free_for w t) (lock_plan (Iterate batch)))))
           (lock_plan (Iterate batch))"
    by (simp add: LockBatch_eq Let_def granted_def txn_db_UnLock_def)
  have same: "batch_keys batch' = batch_keys batch \<longrightarrow>
        lock_plan (Iterate batch') = lock_plan (Iterate batch)"
    by (simp add: lock_plan_sorted_list)
  from dist srt set_plan_Iterate [of batch] lock_plan_sorted_list [of batch] same calls
  show ?thesis by blast
qed

text \<open>
  The example batch and the same operations staged in reverse order: one plan,
  each pair once. In the example world, where another transaction holds
  \<open>(0, ''z'')\<close>, the lock table is asked for \<open>(0, ''ab'')\<close> and then for
  \<open>(0, ''z'')\<close>, and for nothing after it.
\<close>
theorem LockBatch_plan_order_witness:
  "lock_plan (Iterate ex_batch) = [(0, ''ab''), (0, ''z''), (1, ''a''), (1, ''b'')]
   \<and> lock_plan (Iterate (rev ex_batch)) = [(0, ''ab''), (0, ''z''), (1, ''a''), (1, ''b'')]
   \<and> acquire_calls (fst (snd (LockBatch ex_world ex_txn ex_batch Map.empty)))
       = [(0, ''ab''), (0, ''z'')]"
proof -
  have plan: "lock_plan (Iterate ex_batch) = [(0, ''ab''), (0, ''z''), (1, ''a''), (1, ''b'')]"
    by (simp add: ex_batch_def Iterate_def RecordKey_def lock_plan_def)
  have same: "batch_keys (rev ex_batch) = batch_keys ex_batch"
    by (simp add: batch_keys_def)
  note inst = LockBatch_plan_order [of ex_batch "rev ex_batch" ex_world ex_txn Map.empty]
  from inst same have rev: "lock_plan (Iterate (rev ex_batch)) = lock_plan (Iterate ex_batch)"
    by blast
  have tw: "takeWhile (free_for ex_world ex_txn) [(0, ''ab''), (0, ''z''), (1, ''a''), (1, ''b'')]
      = [(0, ''ab'')]"
    by (simp add: free_for_def ex_world_def ex_txn_def)
  from inst have calls: "acquire_calls (fst (snd (LockBatch ex_world ex_txn ex_batch Map.empty)))
       = acquire_calls ex_world @
         take (Suc (length (takeWhile (free_for ex_world ex_txn) (lock_plan (Iterate ex_batch)))))
           (lock_plan (Iterate ex_batch))"
    by blast
  have "acquire_calls (fst (snd (LockBatch ex_world ex_txn ex_batch Map.empty)))
       = [(0, ''ab''), (0, ''z'')]"
    unfolding calls plan tw by (simp add: ex_world_def)
  with plan rev show ?thesis by simp
qed

text \<open>
  What \<^verbatim>\<open>LockBatch\<close> does to the lock table when it is called as \<^verbatim>\<open>CommitBatch\<close>
  calls it (with an empty map of keys to unlock). It notes in that map every
  key the lock table granted in this call: the keys of the plan before the
  first one that is not free for the transaction. Line 213 notes a granted key
  without asking whether the transaction held it before the call.

  When an acquisition fails, every noted key is released before the error is
  returned; the locks of other transactions and all locks on keys outside the
  batch are as before; and when the transaction held no key of the batch on
  entry, the lock table is exactly as before. On full success the returned map
  holds exactly the batch's set of (column family, key) pairs, and the
  transaction holds each of them.
\<close>
theorem LockBatch_unwind:
  assumes lb: "LockBatch w t batch Map.empty = (s, w', keys_to_unlock)"
  shows
  "(\<forall>ck. has_key keys_to_unlock ck =
          (ck \<in> set (takeWhile (free_for w t) (lock_plan (Iterate batch)))))
   \<and> ok s = (\<forall>ck \<in> batch_keys batch. free_for w t ck)
   \<and> (\<not> ok s \<longrightarrow>
         (\<forall>ck. has_key keys_to_unlock ck \<longrightarrow> lock_map w' ck = None)
       \<and> (\<forall>ck. lock_map w ck \<noteq> Some (txn_id t) \<longrightarrow> lock_map w' ck = lock_map w ck)
       \<and> (\<forall>ck. ck \<notin> batch_keys batch \<longrightarrow> lock_map w' ck = lock_map w ck)
       \<and> ((\<forall>ck \<in> batch_keys batch. lock_map w ck \<noteq> Some (txn_id t)) \<longrightarrow>
            lock_map w' = lock_map w))
   \<and> (ok s \<longrightarrow>
         (\<forall>ck. has_key keys_to_unlock ck = (ck \<in> batch_keys batch))
       \<and> (\<forall>ck. lock_map w' ck =
                (if ck \<in> batch_keys batch then Some (txn_id t) else lock_map w ck)))"
proof -
  let ?plan = "lock_plan (Iterate batch)"
  let ?got = "takeWhile (free_for w t) ?plan"
  have plan: "set ?plan = batch_keys batch" by (rule set_plan_Iterate)
  from lb have ktu: "keys_to_unlock = noted Map.empty ?got"
    by (simp add: LockBatch_eq Let_def split: if_splits)
  then have hk: "\<And>ck. has_key keys_to_unlock ck = (ck \<in> set ?got)"
    by (simp add: has_key_noted has_key_empty)
  from lb have oks: "ok s = (\<forall>ck \<in> batch_keys batch. free_for w t ck)"
    by (auto simp: LockBatch_eq Let_def ok_def plan split: if_splits)
  have got: "\<And>ck. ck \<in> set ?got \<Longrightarrow> free_for w t ck \<and> ck \<in> batch_keys batch"
    using takeWhile_free_subset [of _ w t ?plan] plan by blast
  have fail: "lock_map w' = (\<lambda>ck. if ck \<in> set ?got then None else lock_map w ck)" if "\<not> ok s"
    using that lb oks hk ktu
    by (auto simp: LockBatch_eq Let_def plan txn_db_UnLock_def granted_def fun_eq_iff
        split: if_splits)
  have succ: "lock_map w' = (\<lambda>ck. if ck \<in> batch_keys batch then Some (txn_id t) else lock_map w ck)"
    and all: "set ?got = batch_keys batch" if "ok s"
  proof -
    from that oks plan have "\<forall>ck \<in> set ?plan. free_for w t ck" by simp
    then have tw: "?got = ?plan" by (rule takeWhile_all)
    show "set ?got = batch_keys batch" unfolding tw by (rule plan)
    from that lb oks tw plan
    show "lock_map w' = (\<lambda>ck. if ck \<in> batch_keys batch then Some (txn_id t) else lock_map w ck)"
      by (auto simp: LockBatch_eq Let_def granted_def split: if_splits)
  qed
  have f1: "\<not> ok s \<longrightarrow> (\<forall>ck. has_key keys_to_unlock ck \<longrightarrow> lock_map w' ck = None)"
    using fail hk by simp
  have keep: "lock_map w' ck = lock_map w ck"
    if "\<not> ok s" and "lock_map w ck \<noteq> Some (txn_id t)" for ck
  proof (cases "ck \<in> set ?got")
    case True
    with got [of ck] that(2) have "lock_map w ck = None" by (simp add: free_for_def)
    with True fail [OF that(1)] show ?thesis by simp
  next
    case False
    with fail [OF that(1)] show ?thesis by simp
  qed
  then have f2: "\<not> ok s \<longrightarrow>
      (\<forall>ck. lock_map w ck \<noteq> Some (txn_id t) \<longrightarrow> lock_map w' ck = lock_map w ck)"
    by blast
  have f3: "\<not> ok s \<longrightarrow> (\<forall>ck. ck \<notin> batch_keys batch \<longrightarrow> lock_map w' ck = lock_map w ck)"
    using fail got by auto
  have "lock_map w' ck = lock_map w ck"
    if "\<not> ok s" and "\<forall>ck \<in> batch_keys batch. lock_map w ck \<noteq> Some (txn_id t)" for ck
  proof (cases "ck \<in> batch_keys batch")
    case True
    with that show ?thesis by (intro keep) simp_all
  next
    case False
    with f3 that(1) show ?thesis by blast
  qed
  then have f4: "\<not> ok s \<longrightarrow> ((\<forall>ck \<in> batch_keys batch. lock_map w ck \<noteq> Some (txn_id t)) \<longrightarrow>
            lock_map w' = lock_map w)"
    by (auto simp: fun_eq_iff)
  have s1: "ok s \<longrightarrow> (\<forall>ck. has_key keys_to_unlock ck = (ck \<in> batch_keys batch))"
    using all hk by simp
  have s2: "ok s \<longrightarrow> (\<forall>ck. lock_map w' ck =
                (if ck \<in> batch_keys batch then Some (txn_id t) else lock_map w ck))"
    using succ by simp
  from hk oks f1 f2 f3 f4 s1 s2 show ?thesis by blast
qed

text \<open>
  In the example world the batch asks for \<open>(0, ''ab'')\<close>, which is free, and
  then for \<open>(0, ''z'')\<close>, which transaction 9 holds: the call fails and the lock
  table is as before. A batch with \<open>(0, ''ab'')\<close> alone succeeds, returns that
  pair, and the transaction holds it.
\<close>
theorem LockBatch_unwind_witness:
  "\<not> ok (fst (LockBatch ex_world ex_txn [PutCF 0 ''ab'' ''v'', PutCF 0 ''z'' ''v''] Map.empty))
   \<and> lock_map (fst (snd (LockBatch ex_world ex_txn
         [PutCF 0 ''ab'' ''v'', PutCF 0 ''z'' ''v''] Map.empty))) = lock_map ex_world
   \<and> ok (fst (LockBatch ex_world ex_txn [PutCF 0 ''ab'' ''v''] Map.empty))
   \<and> has_key (snd (snd (LockBatch ex_world ex_txn [PutCF 0 ''ab'' ''v''] Map.empty))) (0, ''ab'')
   \<and> lock_map (fst (snd (LockBatch ex_world ex_txn [PutCF 0 ''ab'' ''v''] Map.empty))) (0, ''ab'')
       = Some 7"
proof -
  let ?b = "[PutCF 0 ''ab'' ''v'', PutCF 0 ''z'' ''v'']"
  let ?c = "[PutCF 0 ''ab'' ''v'']"
  obtain s w' k where lb: "LockBatch ex_world ex_txn ?b Map.empty = (s, w', k)"
    by (cases "LockBatch ex_world ex_txn ?b Map.empty")
  have not_free: "\<not> (\<forall>ck \<in> batch_keys ?b. free_for ex_world ex_txn ck)"
    by (simp add: batch_keys_def free_for_def ex_world_def ex_txn_def)
  have not_held: "\<forall>ck \<in> batch_keys ?b. lock_map ex_world ck \<noteq> Some (txn_id ex_txn)"
    by (simp add: batch_keys_def ex_world_def ex_txn_def)
  from LockBatch_unwind [OF lb] not_free have fails: "\<not> ok s" by blast
  with LockBatch_unwind [OF lb] not_held have same: "lock_map w' = lock_map ex_world" by blast
  obtain s2 w2 k2 where lc: "LockBatch ex_world ex_txn ?c Map.empty = (s2, w2, k2)"
    by (cases "LockBatch ex_world ex_txn ?c Map.empty")
  have free: "\<forall>ck \<in> batch_keys ?c. free_for ex_world ex_txn ck"
    by (simp add: batch_keys_def free_for_def ex_world_def ex_txn_def)
  have mem: "(0, ''ab'') \<in> batch_keys ?c"
    by (simp add: batch_keys_def)
  from LockBatch_unwind [OF lc] free have ok2: "ok s2" by blast
  with LockBatch_unwind [OF lc] mem have "has_key k2 (0, ''ab'')"
    and "lock_map w2 (0, ''ab'') = Some (txn_id ex_txn)" by metis+
  moreover have "txn_id ex_txn = 7" by (simp add: ex_txn_def)
  ultimately show ?thesis using fails same ok2 by (simp add: lb lc)
qed

text \<open>
  Claim C6, evaluated. The claim: when an acquisition inside \<^verbatim>\<open>LockBatch\<close> fails,
  the locks acquired earlier in the call are released and the locks the
  transaction held before the call are untouched. Transaction 7 holds
  \<open>(0, ''k1'')\<close> and has it in its ledger; the batch touches \<open>(0, ''k1'')\<close> and
  then \<open>(0, ''z'')\<close>, which transaction 9 holds. The lock table grants
  \<open>(0, ''k1'')\<close> again, line 213 notes it among the keys to unlock, the
  acquisition of \<open>(0, ''z'')\<close> fails, and line 222 releases what was noted:
  afterwards \<open>(0, ''k1'')\<close> is free, although the transaction held it before
  the call and its ledger still lists it. \<^verbatim>\<open>TryLock\<close> guards the same release by
  \<^verbatim>\<open>!previously_locked\<close> (line 291); \<^verbatim>\<open>LockBatch\<close> has no such guard.
\<close>
theorem LockBatch_releases_held_lock:
  "has_key (tracked_keys ex_txn) (0, ''k1'')
   \<and> lock_map ex_world (0, ''k1'') = Some (txn_id ex_txn)
   \<and> fst (LockBatch ex_world ex_txn [PutCF 0 ''k1'' ''v'', PutCF 0 ''z'' ''v''] Map.empty)
       = LockTimeout
   \<and> acquire_calls (fst (snd (LockBatch ex_world ex_txn
         [PutCF 0 ''k1'' ''v'', PutCF 0 ''z'' ''v''] Map.empty))) = [(0, ''k1''), (0, ''z'')]
   \<and> has_key (snd (snd (LockBatch ex_world ex_txn
         [PutCF 0 ''k1'' ''v'', PutCF 0 ''z'' ''v''] Map.empty))) (0, ''k1'')
   \<and> lock_map (fst (snd (LockBatch ex_world ex_txn
         [PutCF 0 ''k1'' ''v'', PutCF 0 ''z'' ''v''] Map.empty))) (0, ''k1'') = None"
  by (simp add: LockBatch_def Iterate_def RecordKey_def txn_db_TryLock_def txn_db_UnLock_def
      insert_key_def put_key_def has_key_def key_seq_def ok_def ex_world_def ex_txn_def)

subsection \<open>Locking one key\<close>

text \<open>
  Claim C5. Whenever \<^verbatim>\<open>TryLock\<close> returns a status that is not OK (the lock table
  did not grant the key, or the snapshot validation found a conflict), the
  ledger is the ledger from before the call, and so are the savepoints' lists
  of new entries; every key the transaction did not hold before the call is in
  the state it was in, so a lock acquired within this call has been released;
  and every key in the ledger (a lock the transaction already held) is in the
  state it was in, so no such lock is released. When every lock the transaction
  held on entry is in its ledger, the lock table is exactly as before.
\<close>
theorem TryLock_failure_unwinds:
  assumes "TryLock D w t cf key untracked = (s, w', t')" and "\<not> ok s"
  shows "tracked_keys t' = tracked_keys t
       \<and> save_points t' = save_points t
       \<and> (\<forall>ck. lock_map w ck \<noteq> Some (txn_id t) \<longrightarrow> lock_map w' ck = lock_map w ck)
       \<and> (\<forall>ck. has_key (tracked_keys t) ck \<longrightarrow> lock_map w' ck = lock_map w ck)
       \<and> ((\<forall>ck. lock_map w ck = Some (txn_id t) \<longrightarrow> has_key (tracked_keys t) ck) \<longrightarrow>
            lock_map w' = lock_map w)"
proof -
  note f = TryLock_failed [OF assms]
  from f(1) have led: "tracked_keys t' = tracked_keys t" and sp: "save_points t' = save_points t"
    by simp_all
  have others: "lock_map w' ck = lock_map w ck" if "lock_map w ck \<noteq> Some (txn_id t)" for ck
    using f(2) that by (auto simp: free_for_def)
  have held: "lock_map w' ck = lock_map w ck" if "has_key (tracked_keys t) ck" for ck
    using f(2) that by (auto simp: has_key_iff)
  have "lock_map w' ck = lock_map w ck"
    if "\<forall>ck. lock_map w ck = Some (txn_id t) \<longrightarrow> has_key (tracked_keys t) ck" for ck
    using that others [of ck] held [of ck] by blast
  then have inv: "(\<forall>ck. lock_map w ck = Some (txn_id t) \<longrightarrow> has_key (tracked_keys t) ck) \<longrightarrow>
            lock_map w' = lock_map w"
    by (auto simp: fun_eq_iff)
  from led sp others held inv show ?thesis by blast
qed

text \<open>
  Two failures in the example world. The key \<open>(0, ''z'')\<close> is held by
  transaction 9: the lock table refuses it. With a snapshot at sequence number
  10 the key \<open>(0, ''hot'')\<close>, written at 15, is granted and then fails
  validation: it is asked for once and is free again afterwards. In both cases
  the ledger and the lock table are as before.
\<close>
theorem TryLock_failure_unwinds_witness:
  "fst (TryLock ex_store ex_world ex_txn 0 ''z'' False) = LockTimeout
   \<and> tracked_keys (snd (snd (TryLock ex_store ex_world ex_txn 0 ''z'' False)))
       = tracked_keys ex_txn
   \<and> lock_map (fst (snd (TryLock ex_store ex_world ex_txn 0 ''z'' False))) = lock_map ex_world
   \<and> fst (TryLock ex_store ex_world (ex_txn\<lparr>snapshot := Some 10\<rparr>) 0 ''hot'' False) = Conflict
   \<and> acquire_calls (fst (snd (TryLock ex_store ex_world (ex_txn\<lparr>snapshot := Some 10\<rparr>)
         0 ''hot'' False))) = [(0, ''hot'')]
   \<and> tracked_keys (snd (snd (TryLock ex_store ex_world (ex_txn\<lparr>snapshot := Some 10\<rparr>)
         0 ''hot'' False))) = tracked_keys ex_txn
   \<and> lock_map (fst (snd (TryLock ex_store ex_world (ex_txn\<lparr>snapshot := Some 10\<rparr>)
         0 ''hot'' False))) = lock_map ex_world"
proof -
  let ?t = "ex_txn\<lparr>snapshot := Some 10\<rparr>"
  obtain s w' t' where a: "TryLock ex_store ex_world ex_txn 0 ''z'' False = (s, w', t')"
    by (cases "TryLock ex_store ex_world ex_txn 0 ''z'' False")
  obtain s2 w2 t2 where b: "TryLock ex_store ex_world ?t 0 ''hot'' False = (s2, w2, t2)"
    by (cases "TryLock ex_store ex_world ?t 0 ''hot'' False")
  have new_z: "key_seq (tracked_keys ex_txn) (0, ''z'') = None"
    and new_hot: "key_seq (tracked_keys ?t) (0, ''hot'') = None"
    by (simp_all add: key_seq_def ex_txn_def)
  have sa: "s = LockTimeout"
    using a unfolding TryLock_new [OF new_z]
    by (auto simp: Let_def free_for_def ex_world_def ex_txn_def)
  have sb: "s2 = Conflict" and cb: "acquire_calls w2 = [(0, ''hot'')]"
    using b unfolding TryLock_new [OF new_hot]
    by (auto simp: Let_def free_for_def ex_world_def ex_txn_def ex_store_def
        kMaxSequenceNumber_def SetSnapshotIfNeeded_def)
  have inv: "\<forall>ck. lock_map ex_world ck = Some (txn_id ex_txn) \<longrightarrow>
      has_key (tracked_keys ex_txn) ck"
    by (simp add: ex_world_def ex_txn_def has_key_def key_seq_def)
  then have inv2: "\<forall>ck. lock_map ex_world ck = Some (txn_id ?t) \<longrightarrow>
      has_key (tracked_keys ?t) ck"
    by simp
  from sa have fa: "\<not> ok s" by (simp add: ok_def)
  from sb have fb: "\<not> ok s2" by (simp add: ok_def)
  from TryLock_failure_unwinds [OF a fa] inv
  have ra: "tracked_keys t' = tracked_keys ex_txn" "lock_map w' = lock_map ex_world"
    by blast+
  from TryLock_failure_unwinds [OF b fb] inv2
  have rb: "tracked_keys t2 = tracked_keys ?t" "lock_map w2 = lock_map ex_world"
    by blast+
  from sa sb cb ra rb show ?thesis by (simp add: a b)
qed

text \<open>
  Claim C7, as the code has it. For a key whose ledger entry is \<open>seq\<close>,
  \<^verbatim>\<open>TryLock\<close> makes no call on the lock table's acquire primitive and leaves the
  lock table as it is. Without validation (the lock is untracked, or no
  snapshot is set) the call returns OK, changes nothing in the world, and
  records \<open>seq\<close> again, unless \<open>seq\<close> is the infinity sentinel: then it
  records the store's latest sequence number (the test at line 276). With
  validation, \<^verbatim>\<open>ValidateSnapshot\<close> is run with \<open>seq\<close> as the previous sequence
  number, and the call returns its status and leaves the world as the
  validation leaves it.
\<close>
theorem TryLock_tracked_key:
  assumes held: "key_seq (tracked_keys t) (cf, key) = Some seq"
      and call: "TryLock D w t cf key untracked = (s, w', t')"
  shows "acquire_calls w' = acquire_calls w
       \<and> lock_map w' = lock_map w
       \<and> ((if untracked then None else snapshot (SetSnapshotIfNeeded D w t)) = None \<longrightarrow>
            s = OK \<and> w' = w \<and>
            key_seq (tracked_keys t') (cf, key) =
              Some (if seq = kMaxSequenceNumber
                    then GetLatestSequenceNumber D (db w) else seq))
       \<and> (\<forall>sn. (if untracked then None else snapshot (SetSnapshotIfNeeded D w t)) = Some sn \<longrightarrow>
            s = fst (ValidateSnapshot D w sn cf key seq kMaxSequenceNumber) \<and>
            w' = snd (snd (ValidateSnapshot D w sn cf key seq kMaxSequenceNumber)) \<and>
            (ok s \<longrightarrow> key_seq (tracked_keys t') (cf, key) =
               Some (fst (snd (ValidateSnapshot D w sn cf key seq kMaxSequenceNumber)))))"
proof (cases "if untracked then None else snapshot (SetSnapshotIfNeeded D w t)")
  case None
  with call show ?thesis
    unfolding TryLock_held [OF held]
    by (auto simp: Let_def key_seq_TrackKey)
next
  case (Some sn)
  with call show ?thesis
    unfolding TryLock_held [OF held]
    by (auto simp: Let_def key_seq_TrackKey ValidateSnapshot_def db_CheckKeyForConflicts_def
        ok_def split: if_splits)
qed

text \<open>
  The example transaction holds \<open>(0, ''k1'')\<close> at sequence number 5 and has no
  snapshot: locking the key again asks the lock table for nothing, changes
  nothing in the world and keeps 5.
\<close>
theorem TryLock_tracked_key_witness:
  "fst (TryLock ex_store ex_world ex_txn 0 ''k1'' False) = OK
   \<and> fst (snd (TryLock ex_store ex_world ex_txn 0 ''k1'' False)) = ex_world
   \<and> key_seq (tracked_keys (snd (snd (TryLock ex_store ex_world ex_txn 0 ''k1'' False))))
        (0, ''k1'') = Some 5"
proof -
  obtain s w' t' where call: "TryLock ex_store ex_world ex_txn 0 ''k1'' False = (s, w', t')"
    by (cases "TryLock ex_store ex_world ex_txn 0 ''k1'' False")
  have held: "key_seq (tracked_keys ex_txn) (0, ''k1'') = Some 5"
    by (simp add: key_seq_def ex_txn_def)
  have none: "(if False then None else snapshot (SetSnapshotIfNeeded ex_store ex_world ex_txn))
      = None"
    by (simp add: SetSnapshotIfNeeded_def ex_txn_def)
  have "(5 :: SequenceNumber) \<noteq> kMaxSequenceNumber"
    by (simp add: kMaxSequenceNumber_def)
  with TryLock_tracked_key [OF held call] none
  have "s = OK \<and> w' = ex_world \<and> key_seq (tracked_keys t') (0, ''k1'') = Some 5"
    by simp
  then show ?thesis by (simp add: call)
qed

text \<open>
  Claim C7 as stated fails for a ledger entry that is the infinity sentinel:
  without validation the call records the store's latest sequence number, 20,
  instead. Such an entry arises in two calls from the example transaction with
  a snapshot at 10: locking \<open>(0, ''k1'')\<close> again leaves the sentinel in the
  ledger, and an untracked lock of the same key then replaces it by 20.
\<close>
theorem TryLock_tracked_key_counterexample:
  "key_seq (tracked_keys (ex_txn\<lparr>tracked_keys := [0 \<mapsto> [''k1'' \<mapsto> kMaxSequenceNumber]]\<rparr>))
      (0, ''k1'') = Some kMaxSequenceNumber
   \<and> snapshot (ex_txn\<lparr>tracked_keys := [0 \<mapsto> [''k1'' \<mapsto> kMaxSequenceNumber]]\<rparr>) = None
   \<and> key_seq (tracked_keys (snd (snd (TryLock ex_store ex_world
         (ex_txn\<lparr>tracked_keys := [0 \<mapsto> [''k1'' \<mapsto> kMaxSequenceNumber]]\<rparr>) 0 ''k1'' False))))
      (0, ''k1'') = Some 20
   \<and> GetLatestSequenceNumber ex_store (db ex_world) = 20
   \<and> kMaxSequenceNumber \<noteq> 20
   \<and> key_seq (tracked_keys (snd (run ex_store [CallTryLock 0 ''k1'' False]
         (ex_world, ex_txn\<lparr>snapshot := Some 10\<rparr>)))) (0, ''k1'') = Some kMaxSequenceNumber
   \<and> key_seq (tracked_keys (snd (run ex_store [CallTryLock 0 ''k1'' False, CallTryLock 0 ''k1'' True]
         (ex_world, ex_txn\<lparr>snapshot := Some 10\<rparr>)))) (0, ''k1'') = Some 20"
  by (simp add: TryLock_def GetTrackedKeys_def SetSnapshotIfNeeded_def ValidateSnapshot_def
      TrackKey_def put_key_def has_key_def key_seq_def ok_def ex_store_def ex_world_def
      ex_txn_def kMaxSequenceNumber_def)


subsection \<open>Commit and cleanup\<close>

text \<open>
  Claim C9. \<^verbatim>\<open>Commit\<close> returns the status of \<^verbatim>\<open>DoCommit\<close> on the pending batch,
  whatever it is (OK, \<open>Expired\<close>, or the error of the store's write), and in
  every case leaves the transaction cleared (empty ledger, empty batch, no
  savepoints) and the lock table without any lock of the transaction on a key
  of its ledger: each such key that the transaction held is free afterwards,
  and every other key is as before.
\<close>
theorem Commit_always_clears:
  assumes "Commit D w t = (s, w', t')"
  shows "s = fst (DoCommit D w t (write_batch t))
       \<and> tracked_keys t' = Map.empty \<and> write_batch t' = [] \<and> save_points t' = []
       \<and> (\<forall>ck. has_key (tracked_keys t) ck \<longrightarrow> lock_map w' ck \<noteq> Some (txn_id t))
       \<and> (\<forall>ck. lock_map w' ck =
              (if has_key (tracked_keys t) ck \<and> lock_map w ck = Some (txn_id t)
               then None else lock_map w ck))"
proof -
  obtain s1 w1 t1 where dc: "DoCommit D w t (write_batch t) = (s1, w1, t1)"
    by (cases "DoCommit D w t (write_batch t)")
  from DoCommit_frame [of D w t "write_batch t"] dc
  have fr: "lock_map w1 = lock_map w" "tracked_keys t1 = tracked_keys t" "txn_id t1 = txn_id t"
    by simp_all
  from assms dc have s: "s = s1" and w': "w' = txn_db_UnLock w1 t1 (GetTrackedKeys t1)"
    and t': "t' = base_Clear t1"
    by (simp_all add: Commit_def Clear_def)
  from t' have cleared: "tracked_keys t' = Map.empty" "write_batch t' = []" "save_points t' = []"
    by (simp_all add: base_Clear_def)
  from w' fr have locks: "\<And>ck. lock_map w' ck =
      (if has_key (tracked_keys t) ck \<and> lock_map w ck = Some (txn_id t)
       then None else lock_map w ck)"
    by (simp add: txn_db_UnLock_def GetTrackedKeys_def)
  then have released: "\<And>ck. has_key (tracked_keys t) ck \<Longrightarrow> lock_map w' ck \<noteq> Some (txn_id t)"
    by simp
  from s dc cleared locks released show ?thesis by simp
qed

text \<open>
  Three commits of the example transaction, which holds \<open>(0, ''k1'')\<close>: one
  that succeeds, one that is expired (expiration at 30, clock at 50), and one
  whose store write fails (the example store refuses an empty batch). Each
  leaves the ledger empty and the key free.
\<close>
theorem Commit_always_clears_witness:
  "fst (Commit ex_store ex_world ex_txn) = OK
   \<and> tracked_keys (snd (snd (Commit ex_store ex_world ex_txn))) = Map.empty
   \<and> lock_map (fst (snd (Commit ex_store ex_world ex_txn))) (0, ''k1'') = None
   \<and> fst (Commit ex_store ex_world (ex_txn\<lparr>expiration_time := 30\<rparr>)) = Expired
   \<and> tracked_keys (snd (snd (Commit ex_store ex_world (ex_txn\<lparr>expiration_time := 30\<rparr>))))
       = Map.empty
   \<and> lock_map (fst (snd (Commit ex_store ex_world (ex_txn\<lparr>expiration_time := 30\<rparr>))))
        (0, ''k1'') = None
   \<and> fst (Commit ex_store ex_world (ex_txn\<lparr>write_batch := []\<rparr>)) = StoreWriteError
   \<and> tracked_keys (snd (snd (Commit ex_store ex_world (ex_txn\<lparr>write_batch := []\<rparr>))))
       = Map.empty
   \<and> lock_map (fst (snd (Commit ex_store ex_world (ex_txn\<lparr>write_batch := []\<rparr>))))
        (0, ''k1'') = None"
proof -
  have run: "fst (Commit ex_store ex_world t) = s
      \<and> tracked_keys (snd (snd (Commit ex_store ex_world t))) = Map.empty
      \<and> lock_map (fst (snd (Commit ex_store ex_world t))) (0, ''k1'') = None"
    if st: "fst (DoCommit ex_store ex_world t (write_batch t)) = s"
      and held: "has_key (tracked_keys t) (0, ''k1'')"
      and mine: "lock_map ex_world (0, ''k1'') = Some (txn_id t)" for t s
  proof -
    obtain s' w' t' where c: "Commit ex_store ex_world t = (s', w', t')"
      by (cases "Commit ex_store ex_world t")
    from Commit_always_clears [OF c] st held mine show ?thesis
      by (simp add: c)
  qed
  have h: "has_key (tracked_keys ex_txn) (0, ''k1'')"
    by (simp add: has_key_def key_seq_def ex_txn_def)
  have m: "lock_map ex_world (0, ''k1'') = Some (txn_id ex_txn)"
    by (simp add: ex_world_def ex_txn_def)
  have 1: "fst (DoCommit ex_store ex_world ex_txn (write_batch ex_txn)) = OK"
    by (simp add: DoCommit_def db_Write_def ex_store_def ex_txn_def)
  have 2: "fst (DoCommit ex_store ex_world (ex_txn\<lparr>expiration_time := 30\<rparr>)
      (write_batch (ex_txn\<lparr>expiration_time := 30\<rparr>))) = Expired"
    by (simp add: DoCommit_def IsExpired_def ex_world_def)
  have 3: "fst (DoCommit ex_store ex_world (ex_txn\<lparr>write_batch := []\<rparr>)
      (write_batch (ex_txn\<lparr>write_batch := []\<rparr>))) = StoreWriteError"
    by (simp add: DoCommit_def db_Write_def ex_store_def ex_txn_def)
  from run [OF 1 h m] run [OF 2] run [OF 3] h m show ?thesis by simp
qed

subsection \<open>Construction with an expiration\<close>

text \<open>
  Claim C10, as the code has it. A transaction constructed at clock
  \<open>now_micros w\<close> has that as its start time. With an expiration option of
  exactly zero its expiration time equals its start time; if that time is not
  zero, the transaction is reported expired at every clock value from the
  start time on, and \<^verbatim>\<open>DoCommit\<close> and \<^verbatim>\<open>Commit\<close> return \<open>Expired\<close> then. The
  expiration time is zero (never expires: \<^verbatim>\<open>IsExpired\<close> is false at every clock
  value) exactly when the option is negative or the sum
  \<open>start_time + expiration * 1000\<close>, taken in 64 bits, is zero. The transaction
  is entered in the registry of expirable transactions exactly when its
  expiration time is greater than zero.
\<close>
theorem new_TransactionImpl_expiration:
  assumes "new_TransactionImpl D w default_timeout opts = (w', t)"
  shows "start_time t = now_micros w
       \<and> (expiration opts = 0 \<longrightarrow> expiration_time t = start_time t)
       \<and> (expiration_time t = 0) =
           (sint (expiration opts) < 0 \<or> now_micros w + expiration opts * 1000 = 0)
       \<and> (expiration opts = 0 \<and> start_time t \<noteq> 0 \<and> start_time t \<le> now_micros w2 \<longrightarrow>
            IsExpired w2 t \<and> DoCommit D w2 t batch = (Expired, w2, t)
            \<and> fst (Commit D w2 t) = Expired)
       \<and> (expiration_time t = 0 \<longrightarrow> \<not> IsExpired w2 t)
       \<and> expirable_txns w' =
           (if 0 < expiration_time t then insert (txn_id t) (expirable_txns w)
            else expirable_txns w)"
proof -
  note f = new_TransactionImpl_fields [OF assms]
  have a: "expiration opts = 0 \<longrightarrow> expiration_time t = start_time t"
    using f(1,2) by simp
  have b: "(expiration_time t = 0) =
           (sint (expiration opts) < 0 \<or> now_micros w + expiration opts * 1000 = 0)"
    using f(2) by auto
  have c: "IsExpired w2 t \<and> DoCommit D w2 t batch = (Expired, w2, t)
            \<and> fst (Commit D w2 t) = Expired"
    if "expiration opts = 0" and "start_time t \<noteq> 0" and "start_time t \<le> now_micros w2"
  proof -
    from that a have "0 < expiration_time t" and "expiration_time t \<le> now_micros w2"
      by (simp_all add: word_gt_0)
    then have e: "IsExpired w2 t" by (simp add: IsExpired_def)
    with \<open>0 < expiration_time t\<close> have "DoCommit D w2 t b = (Expired, w2, t)" for b
      by (simp add: DoCommit_def)
    with e show ?thesis by (simp add: Commit_def split: prod.splits)
  qed
  have d: "expiration_time t = 0 \<longrightarrow> \<not> IsExpired w2 t"
    by (simp add: IsExpired_def)
  from f(1) a b c d f(5) show ?thesis by blast
qed

text \<open>
  Constructed in the example world (clock 50, next id 10) with an expiration of
  zero: expiration time 50, expired at once, commit returns \<open>Expired\<close>, and
  the transaction is registered.
\<close>
theorem new_TransactionImpl_expiration_witness:
  "expiration_time (snd (new_TransactionImpl ex_store ex_world 1000 ex_opts)) = 50
   \<and> IsExpired ex_world (snd (new_TransactionImpl ex_store ex_world 1000 ex_opts))
   \<and> fst (Commit ex_store ex_world (snd (new_TransactionImpl ex_store ex_world 1000 ex_opts)))
       = Expired
   \<and> expirable_txns (fst (new_TransactionImpl ex_store ex_world 1000 ex_opts)) = {10}"
proof -
  obtain w' t where n: "new_TransactionImpl ex_store ex_world 1000 ex_opts = (w', t)"
    by (cases "new_TransactionImpl ex_store ex_world 1000 ex_opts")
  note inst = new_TransactionImpl_expiration [OF n, of ex_world]
  have o: "expiration ex_opts = 0" by (simp add: ex_opts_def)
  have st: "start_time t = 50" using inst by (simp add: ex_world_def)
  with inst o have et: "expiration_time t = 50" by simp
  from st have pre: "start_time t \<noteq> 0 \<and> start_time t \<le> now_micros ex_world"
    by (simp add: ex_world_def)
  with inst o have "IsExpired ex_world t" and "fst (Commit ex_store ex_world t) = Expired"
    by blast+
  moreover have "txn_id t = 10"
    using new_TransactionImpl_fields(4) [OF n] by (simp add: ex_world_def)
  moreover from inst et have "expirable_txns w' = insert (txn_id t) (expirable_txns ex_world)"
    by simp
  moreover have "expirable_txns ex_world = {}" by (simp add: ex_world_def)
  ultimately show ?thesis using et by (simp add: n)
qed

text \<open>
  Claim C10 as stated fails when the clock reads zero at construction: with an
  expiration of exactly zero the expiration time is then zero, the "never
  expires" value, although the option is not negative; the transaction is not
  reported expired at the construction time or later, a commit writes, and the
  transaction is not registered.
\<close>
theorem new_TransactionImpl_expiration_counterexample:
  "expiration ex_opts = 0
   \<and> expiration_time (snd (new_TransactionImpl ex_store (ex_world\<lparr>now_micros := 0\<rparr>) 1000 ex_opts))
       = 0
   \<and> \<not> IsExpired (ex_world\<lparr>now_micros := 0\<rparr>)
         (snd (new_TransactionImpl ex_store (ex_world\<lparr>now_micros := 0\<rparr>) 1000 ex_opts))
   \<and> \<not> IsExpired ex_world
         (snd (new_TransactionImpl ex_store (ex_world\<lparr>now_micros := 0\<rparr>) 1000 ex_opts))
   \<and> fst (DoCommit ex_store ex_world
         (snd (new_TransactionImpl ex_store (ex_world\<lparr>now_micros := 0\<rparr>) 1000 ex_opts))
         [PutCF 0 ''k'' ''v'']) = OK
   \<and> expirable_txns (fst (new_TransactionImpl ex_store (ex_world\<lparr>now_micros := 0\<rparr>) 1000 ex_opts))
       = {}"
  by (simp add: new_TransactionImpl_def GenTxnID_def ex_opts_def ex_world_def IsExpired_def
      DoCommit_def db_Write_def ex_store_def)

subsection \<open>Rolling back to a savepoint\<close>

text \<open>
  Claim C8. Take a savepoint in any state \<open>(w0, t0)\<close>, then lock keys and
  stage writes in any number and order (\<open>cs\<close>; a \<^verbatim>\<open>TryLock\<close> may fail), then
  call \<^verbatim>\<open>RollbackToSavePoint\<close> once. The call returns OK; the pending batch and
  the stack of savepoints are those of \<open>t0\<close>; the ledger has exactly the keys
  it had in \<open>t0\<close>; every key in the ledger of \<open>t0\<close> (a lock tracked before
  the savepoint) is in the lock table as it was at the savepoint, so it is
  still held; no key that entered the ledger after the savepoint is held by the
  transaction any more; and every key the transaction did not hold at the
  savepoint is as it was then.
\<close>
theorem RollbackToSavePoint_releases_since:
  assumes calls: "\<forall>c \<in> set cs. locks_or_stages c"
    and ran: "run D cs (w0, SetSavePoint t0) = (w2, t2)"
    and rolled: "RollbackToSavePoint w2 t2 = (s, w3, t3)"
  shows "s = OK
       \<and> write_batch t3 = write_batch t0
       \<and> save_points t3 = save_points t0
       \<and> (\<forall>ck. has_key (tracked_keys t3) ck = has_key (tracked_keys t0) ck)
       \<and> (\<forall>ck. has_key (tracked_keys t0) ck \<longrightarrow> lock_map w3 ck = lock_map w0 ck)
       \<and> (\<forall>ck. has_key (tracked_keys t2) ck \<and> \<not> has_key (tracked_keys t0) ck \<longrightarrow>
              lock_map w3 ck \<noteq> Some (txn_id t0))
       \<and> (\<forall>ck. lock_map w0 ck \<noteq> Some (txn_id t0) \<longrightarrow> lock_map w3 ck = lock_map w0 ck)"
proof -
  have "since_savepoint w0 t0 (run D cs (w0, SetSavePoint t0))"
    using calls since_savepoint_init by (rule since_savepoint_run)
  then have inv: "since_savepoint w0 t0 (w2, t2)" by (simp add: ran)
  from since_savepoint_D [OF inv] obtain nk where tid: "txn_id t2 = txn_id t0"
    and sp: "save_points t2 = \<lparr>batch_mark = length (write_batch t0), new_keys = nk\<rparr> # save_points t0"
    and nk': "\<forall>ck. has_key nk ck = (has_key (tracked_keys t2) ck \<and> \<not> has_key (tracked_keys t0) ck)"
    and old': "\<forall>ck. has_key (tracked_keys t0) ck \<longrightarrow>
           has_key (tracked_keys t2) ck \<and> lock_map w2 ck = lock_map w0 ck"
    and bt: "take (length (write_batch t0)) (write_batch t2) = write_batch t0"
    and oth': "\<forall>ck. lock_map w0 ck \<noteq> Some (txn_id t0) \<longrightarrow>
           lock_map w2 ck = lock_map w0 ck
           \<or> (lock_map w0 ck = None \<and> lock_map w2 ck = Some (txn_id t0)
               \<and> has_key (tracked_keys t2) ck)"
    by blast
  note nk = nk' [rule_format] and old = old' [rule_format] and oth = oth' [rule_format]
  from rolled sp have s: "s = OK"
    and w3: "w3 = txn_db_UnLock w2 t2 nk"
    and t3: "t3 = t2\<lparr>tracked_keys := remove_keys (tracked_keys t2) nk,
                     write_batch := take (length (write_batch t0)) (write_batch t2),
                     save_points := save_points t0\<rparr>"
    by (auto simp: RollbackToSavePoint_def GetTrackedKeysSinceSavePoint_def
        base_RollbackToSavePoint_def)
  have lm: "lock_map w3 ck =
      (if has_key nk ck \<and> lock_map w2 ck = Some (txn_id t0) then None else lock_map w2 ck)" for ck
    by (simp add: w3 txn_db_UnLock_def tid)
  have ledger: "has_key (tracked_keys t3) ck = has_key (tracked_keys t0) ck" for ck
    using old [of ck] by (auto simp: t3 has_key_remove_keys nk)
  have kept: "lock_map w3 ck = lock_map w0 ck" if "has_key (tracked_keys t0) ck" for ck
    using old [OF that] that by (simp add: lm nk)
  have released: "lock_map w3 ck \<noteq> Some (txn_id t0)"
    if "has_key (tracked_keys t2) ck \<and> \<not> has_key (tracked_keys t0) ck" for ck
    using that by (simp add: lm nk)
  have others: "lock_map w3 ck = lock_map w0 ck" if "lock_map w0 ck \<noteq> Some (txn_id t0)" for ck
  proof (cases "has_key (tracked_keys t0) ck")
    case True
    then show ?thesis by (rule kept)
  next
    case False
    with oth [OF that] that show ?thesis by (auto simp: lm nk)
  qed
  from s bt ledger kept released others show ?thesis
    by (simp add: t3)
qed

text \<open>
  The example transaction holds \<open>(0, ''k1'')\<close>. After a savepoint it locks
  \<open>(0, ''k2'')\<close> and \<open>(0, ''k3'')\<close> and stages a write to each; both are then
  held. One \<^verbatim>\<open>RollbackToSavePoint\<close> returns OK, leaves \<open>(0, ''k1'')\<close> held and in
  the ledger, frees \<open>(0, ''k2'')\<close> and \<open>(0, ''k3'')\<close>, drops \<open>(0, ''k2'')\<close>
  from the ledger, and cuts the batch back to the one write staged before the
  savepoint.
\<close>
theorem RollbackToSavePoint_releases_since_witness:
  "lock_map (fst (run ex_store ex_calls (ex_world, SetSavePoint ex_txn))) (0, ''k2'') = Some 7
   \<and> lock_map (fst (run ex_store ex_calls (ex_world, SetSavePoint ex_txn))) (0, ''k3'') = Some 7
   \<and> fst (RollbackToSavePoint (fst (run ex_store ex_calls (ex_world, SetSavePoint ex_txn)))
            (snd (run ex_store ex_calls (ex_world, SetSavePoint ex_txn)))) = OK
   \<and> lock_map (fst (snd (RollbackToSavePoint
            (fst (run ex_store ex_calls (ex_world, SetSavePoint ex_txn)))
            (snd (run ex_store ex_calls (ex_world, SetSavePoint ex_txn)))))) (0, ''k1'') = Some 7
   \<and> lock_map (fst (snd (RollbackToSavePoint
            (fst (run ex_store ex_calls (ex_world, SetSavePoint ex_txn)))
            (snd (run ex_store ex_calls (ex_world, SetSavePoint ex_txn)))))) (0, ''k2'') = None
   \<and> lock_map (fst (snd (RollbackToSavePoint
            (fst (run ex_store ex_calls (ex_world, SetSavePoint ex_txn)))
            (snd (run ex_store ex_calls (ex_world, SetSavePoint ex_txn)))))) (0, ''k3'') = None
   \<and> write_batch (snd (snd (RollbackToSavePoint
            (fst (run ex_store ex_calls (ex_world, SetSavePoint ex_txn)))
            (snd (run ex_store ex_calls (ex_world, SetSavePoint ex_txn))))))
       = [PutCF 0 ''k1'' ''v'']
   \<and> has_key (tracked_keys (snd (snd (RollbackToSavePoint
            (fst (run ex_store ex_calls (ex_world, SetSavePoint ex_txn)))
            (snd (run ex_store ex_calls (ex_world, SetSavePoint ex_txn))))))) (0, ''k1'')
   \<and> \<not> has_key (tracked_keys (snd (snd (RollbackToSavePoint
            (fst (run ex_store ex_calls (ex_world, SetSavePoint ex_txn)))
            (snd (run ex_store ex_calls (ex_world, SetSavePoint ex_txn))))))) (0, ''k2'')"
proof -
  obtain w2 t2 where ran: "run ex_store ex_calls (ex_world, SetSavePoint ex_txn) = (w2, t2)"
    by (cases "run ex_store ex_calls (ex_world, SetSavePoint ex_txn)")
  obtain s w3 t3 where rolled: "RollbackToSavePoint w2 t2 = (s, w3, t3)"
    by (cases "RollbackToSavePoint w2 t2")
  have calls: "\<forall>c \<in> set ex_calls. locks_or_stages c"
    by (simp add: ex_calls_def)
  note inst = RollbackToSavePoint_releases_since [OF calls ran rolled]
  have before: "lock_map w2 (0, ''k2'') = Some 7" "lock_map w2 (0, ''k3'') = Some 7"
    using ran
    by (auto simp: ex_calls_def TryLock_def GetTrackedKeys_def SetSavePoint_def
        SetSnapshotIfNeeded_def txn_db_TryLock_def TrackKey_def put_key_def has_key_def
        key_seq_def ok_def ex_store_def ex_world_def ex_txn_def)
  have w0: "lock_map ex_world (0, ''k1'') = Some 7" "lock_map ex_world (0, ''k2'') = None"
    "lock_map ex_world (0, ''k3'') = None" "txn_id ex_txn = 7"
    "write_batch ex_txn = [PutCF 0 ''k1'' ''v'']"
    "has_key (tracked_keys ex_txn) (0, ''k1'')" "\<not> has_key (tracked_keys ex_txn) (0, ''k2'')"
    by (simp_all add: ex_world_def ex_txn_def has_key_def key_seq_def)
  from inst w0 have "s = OK" "lock_map w3 (0, ''k1'') = Some 7" "lock_map w3 (0, ''k2'') = None"
    "lock_map w3 (0, ''k3'') = None" "write_batch t3 = [PutCF 0 ''k1'' ''v'']"
    "has_key (tracked_keys t3) (0, ''k1'')" "\<not> has_key (tracked_keys t3) (0, ''k2'')"
    by (metis option.distinct(1))+
  with before show ?thesis by (simp add: ran rolled)
qed

end
